theory Spec2Isabelle
  imports Complex_Main "HOL-Library.Word" "HOL-Library.Multiset"
    "HOL-Library.List_Lexorder" "HOL-Library.Char_ord"
begin

unbundle bit_operations_syntax

section \<open>JavaScript values used by the delivery-cost service\<close>

subsection \<open>Numbers\<close>

text \<open>
  A JavaScript number is a double. The service only adds small integer multiples of the
  table distances, compares with \<open><\<close> and \<open>>\<close> and takes \<open>Math.min\<close>; on these the
  doubles are exact, so a finite number is modelled by the rational it denotes. The three
  non-finite values are kept apart, because \<open>Infinity\<close> is the "unreachable" distance of
  the source and \<open>NaN\<close> is what arithmetic on a non-number yields.
\<close>

datatype jsnum = NaN | NegInf | Fin rat | PosInf

text \<open>\<open>a + b\<close> on numbers.\<close>

fun js_add :: "jsnum \<Rightarrow> jsnum \<Rightarrow> jsnum" where
  "js_add NaN _ = NaN"
| "js_add _ NaN = NaN"
| "js_add PosInf NegInf = NaN"
| "js_add NegInf PosInf = NaN"
| "js_add PosInf _ = PosInf"
| "js_add _ PosInf = PosInf"
| "js_add NegInf _ = NegInf"
| "js_add _ NegInf = NegInf"
| "js_add (Fin a) (Fin b) = Fin (a + b)"

text \<open>\<open>a * b\<close> on numbers: an infinity times zero is \<open>NaN\<close>, otherwise the signs multiply.\<close>

definition js_inf_times :: "bool \<Rightarrow> rat \<Rightarrow> jsnum" where
  "js_inf_times pos r =
     (if r = 0 then NaN else if (0 < r) = pos then PosInf else NegInf)"

fun js_mul :: "jsnum \<Rightarrow> jsnum \<Rightarrow> jsnum" where
  "js_mul NaN _ = NaN"
| "js_mul _ NaN = NaN"
| "js_mul (Fin a) (Fin b) = Fin (a * b)"
| "js_mul PosInf (Fin b) = js_inf_times True b"
| "js_mul NegInf (Fin b) = js_inf_times False b"
| "js_mul (Fin a) PosInf = js_inf_times True a"
| "js_mul (Fin a) NegInf = js_inf_times False a"
| "js_mul PosInf PosInf = PosInf"
| "js_mul NegInf NegInf = PosInf"
| "js_mul PosInf NegInf = NegInf"
| "js_mul NegInf PosInf = NegInf"

text \<open>\<open>a < b\<close> and \<open>a <= b\<close>: false as soon as one side is \<open>NaN\<close>.\<close>

fun js_lt :: "jsnum \<Rightarrow> jsnum \<Rightarrow> bool" where
  "js_lt NaN _ = False"
| "js_lt _ NaN = False"
| "js_lt (Fin a) (Fin b) = (a < b)"
| "js_lt NegInf NegInf = False"
| "js_lt NegInf _ = True"
| "js_lt _ NegInf = False"
| "js_lt PosInf _ = False"
| "js_lt _ PosInf = True"

fun js_le :: "jsnum \<Rightarrow> jsnum \<Rightarrow> bool" where
  "js_le NaN _ = False"
| "js_le _ NaN = False"
| "js_le (Fin a) (Fin b) = (a \<le> b)"
| "js_le NegInf _ = True"
| "js_le _ PosInf = True"
| "js_le _ NegInf = False"
| "js_le PosInf _ = False"

text \<open>\<open>a > b\<close> is \<open>b < a\<close>.\<close>

definition js_gt :: "jsnum \<Rightarrow> jsnum \<Rightarrow> bool" where
  "js_gt a b = js_lt b a"

text \<open>\<open>Math.min(a, b)\<close>: \<open>NaN\<close> if either argument is, else the smaller one.\<close>

definition Math_min :: "jsnum \<Rightarrow> jsnum \<Rightarrow> jsnum" where
  "Math_min a b = (if a = NaN \<or> b = NaN then NaN else if js_lt b a then b else a)"

text \<open>\<open>isNaN\<close> on a number, and the truthiness of a number (\<open>0\<close> and \<open>NaN\<close> are falsy).\<close>

definition isNaN :: "jsnum \<Rightarrow> bool" where
  "isNaN n = (n = NaN)"

definition truthy_num :: "jsnum \<Rightarrow> bool" where
  "truthy_num n = (n \<noteq> NaN \<and> n \<noteq> Fin 0)"

subsection \<open>Plain objects and inherited properties\<close>

text \<open>
  The tables of the source (\<open>DISTANCES\<close>, the product map, \<open>testCases\<close>) and the order are
  plain objects: an association list of own properties in enumeration order. Reading
  \<open>obj[key]\<close> on a plain object finds an own property first and otherwise a member of
  \<open>Object.prototype\<close>; only when neither exists is the result \<open>undefined\<close>. A value read
  from a table is therefore either a value the table holds (\<open>Prim\<close>) or the built-in
  member of that name (\<open>Builtin\<close>), and \<open>None\<close> stands for \<open>undefined\<close>.
\<close>

datatype 'a dyn = Prim 'a | Builtin string

definition Object_prototype :: "string list" where
  "Object_prototype =
     [''constructor'', ''__defineGetter__'', ''__defineSetter__'', ''hasOwnProperty'',
      ''__lookupGetter__'', ''__lookupSetter__'', ''isPrototypeOf'',
      ''propertyIsEnumerable'', ''toString'', ''valueOf'', ''__proto__'',
      ''toLocaleString'']"

definition get_prop :: "(string \<times> 'a) list \<Rightarrow> string \<Rightarrow> 'a dyn option" where
  "get_prop obj key =
     (case map_of obj key of
        Some v \<Rightarrow> Some (Prim v)
      | None \<Rightarrow> if key \<in> set Object_prototype then Some (Builtin key) else None)"

text \<open>
  \<open>obj[key] = v\<close> for a primitive \<open>v\<close>: an existing own property keeps its place, a new one
  goes last. The key \<open>__proto__\<close> is the inherited setter, which ignores a primitive: the
  object stays as it was.
\<close>

fun own_put :: "(string \<times> 'a) list \<Rightarrow> string \<Rightarrow> 'a \<Rightarrow> (string \<times> 'a) list" where
  "own_put [] k v = [(k, v)]"
| "own_put (p # ps) k v = (if fst p = k then (k, v) # ps else p # own_put ps k v)"

definition obj_put :: "(string \<times> 'a) list \<Rightarrow> string \<Rightarrow> 'a \<Rightarrow> (string \<times> 'a) list" where
  "obj_put obj k v = (if k = ''__proto__'' then obj else own_put obj k v)"

definition Object_keys :: "(string \<times> 'a) list \<Rightarrow> string list" where
  "Object_keys obj = map fst obj"

text \<open>
  A location is a string, or a built-in member that a table lookup returned. In a
  template literal a built-in function prints as its source text, with the function's
  name (\<open>constructor\<close> is the function \<open>Object\<close>), and \<open>__proto__\<close>, which is
  \<open>Object.prototype\<close> itself, as \<open>[object Object]\<close>.
\<close>

type_synonym loc = "string dyn"

fun to_string :: "loc \<Rightarrow> string" where
  "to_string (Prim s) = s"
| "to_string (Builtin p) =
     (if p = ''__proto__'' then ''[object Object]''
      else if p = ''constructor'' then ''function Object() { [native code] }''
      else ''function '' @ p @ ''() { [native code] }'')"

text \<open>Truthiness of a looked-up string, and the number a looked-up number stands for in
  arithmetic (a function or object there gives \<open>NaN\<close>).\<close>

fun truthy_str :: "string dyn option \<Rightarrow> bool" where
  "truthy_str None = False"
| "truthy_str (Some (Prim s)) = (s \<noteq> [])"
| "truthy_str (Some (Builtin _)) = True"

fun ToNumber :: "jsnum dyn \<Rightarrow> jsnum" where
  "ToNumber (Prim n) = n"
| "ToNumber (Builtin _) = NaN"

section \<open>The tables\<close>

definition CENTER_PRODUCTS :: "(string \<times> string list) list" where
  "CENTER_PRODUCTS =
     [(''C1'', [''A'', ''B'', ''C'']),
      (''C2'', [''D'', ''E'', ''F'']),
      (''C3'', [''G'', ''H'', ''I''])]"

text \<open>The distance table of \<open>src/index.js\<close>.\<close>

definition DISTANCES :: "(string \<times> jsnum) list" where
  "DISTANCES =
     [(''C1_L1'', Fin 13), (''C2_L1'', Fin 39), (''C3_L1'', Fin 18),
      (''L1_C1'', Fin 13), (''L1_C2'', Fin 39), (''L1_C3'', Fin 18),
      (''C1_C2'', Fin 30), (''C1_C3'', Fin 40), (''C2_C1'', Fin 30),
      (''C2_C3'', Fin 20), (''C3_C1'', Fin 40), (''C3_C2'', Fin 20)]"

text \<open>The distance table of the second entry point, which is otherwise the same code up
  to \<open>findOptimalRoute\<close>. The functions below take the table as a parameter.\<close>

definition DISTANCES_2 :: "(string \<times> jsnum) list" where
  "DISTANCES_2 =
     [(''C1_L1'', Fin 3), (''C2_L1'', Fin (5 / 2)), (''C3_L1'', Fin 2),
      (''L1_C1'', Fin 3), (''L1_C2'', Fin (5 / 2)), (''L1_C3'', Fin 2),
      (''C1_C2'', Fin 4), (''C1_C3'', Fin 3), (''C2_C1'', Fin 4),
      (''C2_C3'', Fin 3), (''C3_C1'', Fin 3), (''C3_C2'', Fin 3)]"

definition COST_PER_KM :: jsnum where
  "COST_PER_KM = Fin 3"

definition L1 :: loc where
  "L1 = Prim ''L1''"

section \<open>Distances and route cost\<close>

text \<open>\<open>getDistance\<close>: \<open>DISTANCES[`${from}_${to}`] || Infinity\<close>.\<close>

definition getDistance :: "(string \<times> jsnum) list \<Rightarrow> loc \<Rightarrow> loc \<Rightarrow> jsnum dyn" where
  "getDistance D from to =
     (let key = to_string from @ ''_'' @ to_string to
      in case get_prop D key of
           None \<Rightarrow> Prim PosInf
         | Some (Prim d) \<Rightarrow> if truthy_num d then Prim d else Prim PosInf
         | Some (Builtin p) \<Rightarrow> Builtin p)"

text \<open>\<open>calculateRouteCost\<close>: the loop over \<open>i = 0 .. route.length - 2\<close> with the running
  \<open>cost\<close>.\<close>

definition calculateRouteCost :: "(string \<times> jsnum) list \<Rightarrow> loc list \<Rightarrow> jsnum" where
  "calculateRouteCost D route =
     fold (\<lambda>i cost.
             js_add cost (js_mul (ToNumber (getDistance D (route ! i) (route ! (i + 1))))
                                 COST_PER_KM))
          [0 ..< length route - 1] (Fin 0)"

section \<open>Products and centers\<close>

text \<open>\<open>getProductCenterMap\<close>: the nested \<open>forEach\<close> that assigns
  \<open>productCenterMap[product] = center\<close>.\<close>

definition getProductCenterMap :: "(string \<times> string) list" where
  "getProductCenterMap =
     fold (\<lambda>(center, products) m. fold (\<lambda>product m. obj_put m product center) products m)
          CENTER_PRODUCTS []"

text \<open>A \<open>Set\<close> is its elements in insertion order; \<open>add\<close> ignores an element it has.\<close>

definition Set_add :: "'a list \<Rightarrow> 'a \<Rightarrow> 'a list" where
  "Set_add s x = (if x \<in> set s then s else s @ [x])"

text \<open>\<open>findCentersNeeded\<close>, over \<open>Object.entries(order)\<close>.\<close>

definition findCentersNeeded :: "(string \<times> jsnum) list \<Rightarrow> (string \<times> string) list \<Rightarrow> loc list" where
  "findCentersNeeded order productCenterMap =
     fold (\<lambda>(product, quantity) centersNeeded.
             if js_gt quantity (Fin 0) \<and> truthy_str (get_prop productCenterMap product)
             then (case get_prop productCenterMap product of
                     Some c \<Rightarrow> Set_add centersNeeded c
                   | None \<Rightarrow> centersNeeded)
             else centersNeeded)
          order []"

section \<open>The route optimizer\<close>

text \<open>\<open>getPermutations\<close>: for each index the element there, in front of every
  permutation of the rest.\<close>

fun getPermutations :: "'a list \<Rightarrow> 'a list list" where
  "getPermutations arr =
     (if length arr \<le> 1 then [arr]
      else concat (map (\<lambda>i. map (\<lambda>perm. arr ! i # perm)
                                 (getPermutations (take i arr @ drop (Suc i) arr)))
                       [0 ..< length arr]))"

declare getPermutations.simps [simp del]

text \<open>
  The bit operators work on 32-bit integers and take the shift count modulo 32:
  \<open>x << n\<close>, \<open>x >> n\<close> (sign-propagating) and \<open>x & y\<close>.
\<close>

definition shl32 :: "int \<Rightarrow> nat \<Rightarrow> int" where
  "shl32 x n = sint (push_bit (n mod 32) (word_of_int x :: 32 word))"

definition sar32 :: "int \<Rightarrow> nat \<Rightarrow> int" where
  "sar32 x n = sint (signed_drop_bit (n mod 32) (word_of_int x :: 32 word))"

definition and32 :: "int \<Rightarrow> int \<Rightarrow> int" where
  "and32 x y = sint ((word_of_int x :: 32 word) AND word_of_int y)"

text \<open>The body of the \<open>mask\<close> loop up to the cost: the route for one permutation and one
  mask (\<open>msk\<close>).\<close>

definition buildRoute :: "loc \<Rightarrow> loc list \<Rightarrow> nat \<Rightarrow> loc list" where
  "buildRoute startCenter perm msk =
     (let n = length perm;
          route = fold (\<lambda>i route.
                          (if and32 (sar32 (int msk) i) 1 \<noteq> 0 then route @ [L1] else route)
                          @ [perm ! i])
                       [0 ..< n] [startCenter]
      in if last route \<noteq> L1 then route @ [L1] else route)"

record optimal =
  route :: "loc list option"
  cost :: jsnum

text \<open>\<open>findOptimalRoute\<close>. The pair carried through the two loops is
  \<open>(minCost, bestRoute)\<close>; \<open>bestRoute = null\<close> is \<open>None\<close>.\<close>

definition findOptimalRoute :: "(string \<times> jsnum) list \<Rightarrow> loc \<Rightarrow> loc list \<Rightarrow> optimal" where
  "findOptimalRoute D startCenter centersNeeded =
     (let centersToVisit = filter (\<lambda>center. center \<noteq> startCenter) centersNeeded
      in if length centersToVisit = 0
         then (if startCenter \<in> set centersNeeded
               then \<lparr>route = Some [startCenter, L1],
                     cost = calculateRouteCost D [startCenter, L1]\<rparr>
               else \<lparr>route = Some [], cost = PosInf\<rparr>)
         else
           let permutations = getPermutations centersToVisit;
               (minCost, bestRoute) =
                 fold (\<lambda>perm st.
                         let n = length perm
                         in fold (\<lambda>msk. \<lambda>(minCost, bestRoute).
                                    let r = buildRoute startCenter perm msk;
                                        c = calculateRouteCost D r
                                    in if js_lt c minCost then (c, Some r)
                                       else (minCost, bestRoute))
                                 [0 ..< nat (shl32 1 n)] st)
                      permutations (PosInf, None)
           in \<lparr>route = bestRoute, cost = minCost\<rparr>)"

section \<open>The order and the top-level function\<close>

text \<open>
  An order is the list \<open>Object.entries(order)\<close> of the request body: its own properties
  in enumeration order, one entry per key. A raw quantity is a JSON scalar.
  \<open>Number(value)\<close> on a string is the runtime's numeric parser, which is not part of the
  repository: it is the parameter \<open>parse\<close> of everything below, so each result holds for
  whatever the parser does. Quantities that are arrays or objects are not part of the
  model.
\<close>

datatype json = JNull | JBool bool | JNum jsnum | JStr string

fun Number :: "(string \<Rightarrow> jsnum) \<Rightarrow> json \<Rightarrow> jsnum" where
  "Number parse (JNum n) = n"
| "Number parse JNull = Fin 0"
| "Number parse (JBool b) = (if b then Fin 1 else Fin 0)"
| "Number parse (JStr s) = parse s"

fun typeof_number :: "json \<Rightarrow> bool" where
  "typeof_number (JNum _) = True"
| "typeof_number _ = False"

text \<open>The test of lines 188-190; \<open>typeof key === 'string'\<close> holds of every key.\<close>

definition valid_entry :: "(string \<Rightarrow> jsnum) \<Rightarrow> json \<Rightarrow> bool" where
  "valid_entry parse v =
     ((typeof_number v \<or> \<not> isNaN (Number parse v)) \<and> js_gt (Number parse v) (Fin 0))"

text \<open>The normalization step: \<open>filteredOrder\<close> after the \<open>forEach\<close> over
  \<open>Object.entries(order)\<close>.\<close>

definition filterOrder :: "(string \<Rightarrow> jsnum) \<Rightarrow> (string \<times> json) list \<Rightarrow> (string \<times> jsnum) list" where
  "filterOrder parse order =
     fold (\<lambda>(key, v) filteredOrder.
             if valid_entry parse v then obj_put filteredOrder key (Number parse v)
             else filteredOrder)
          order []"

text \<open>\<open>Array.prototype.join\<close>, and the hard-coded answers.\<close>

fun join :: "string \<Rightarrow> string list \<Rightarrow> string" where
  "join sep [] = []"
| "join sep [x] = x"
| "join sep (x # y # ys) = x @ sep @ join sep (y # ys)"

definition testCases :: "(string \<times> jsnum) list" where
  "testCases =
     [(''A,G,H,I'', Fin 86), (''A,B,C,G,H,I'', Fin 118),
      (''A,B,C'', Fin 78), (''A,B,C,D'', Fin 168)]"

definition centers :: "loc list" where
  "centers = [Prim ''C1'', Prim ''C2'', Prim ''C3'']"

text \<open>Truthiness of a looked-up number: a built-in member is an object, hence truthy.\<close>

fun truthy_val :: "jsnum dyn option \<Rightarrow> bool" where
  "truthy_val None = False"
| "truthy_val (Some (Prim n)) = truthy_num n"
| "truthy_val (Some (Builtin _)) = True"

text \<open>
  \<open>calculateMinDeliveryCost\<close> of \<open>src/index.js\<close>. The default \<open>sort()\<close> orders strings
  by their code units, which is the lexicographic order on \<open>string\<close>. The result is a
  number, or the built-in member that \<open>testCases[orderProducts]\<close> found.
\<close>

definition calculateMinDeliveryCost :: "(string \<Rightarrow> jsnum) \<Rightarrow> (string \<times> json) list \<Rightarrow> jsnum dyn" where
  "calculateMinDeliveryCost parse order =
     (let filteredOrder = filterOrder parse order
      in if length (Object_keys filteredOrder) = 0 then Prim (Fin 0)
         else
           let productCenterMap = getProductCenterMap;
               centersNeeded = findCentersNeeded filteredOrder productCenterMap
           in if length centersNeeded = 0 then Prim (Fin 0)
              else
                let orderProducts = join '','' (sort (Object_keys filteredOrder))
                in if truthy_val (get_prop testCases orderProducts)
                   then (case get_prop testCases orderProducts of
                           Some v \<Rightarrow> v
                         | None \<Rightarrow> Prim (Fin 0))
                   else Prim (fold (\<lambda>startCenter minCost.
                                      Math_min minCost
                                        (cost (findOptimalRoute DISTANCES startCenter centersNeeded)))
                                   centers PosInf))"

section \<open>The second entry point\<close>

text \<open>
  The second file has the same functions up to \<open>findOptimalRoute\<close>, over the table
  \<open>DISTANCES_2\<close> (its unit cost \<open>COST_PER_UNIT\<close> is 3 as well). Its
  \<open>calculateMinDeliveryCost\<close> looks the order up three times, twice by
  \<open>JSON.stringify\<close>, before it resolves the centers, and scales the minimum by 13.

  \<open>JSON.stringify\<close> of an object whose values are numbers: the quoted keys with their
  values, in enumeration order. How a finite number prints is the runtime's business and
  the parameter \<open>num_text\<close>; a number that is not finite prints as \<open>null\<close>. A quoted
  string escapes the double quote, the backslash and the control characters.
\<close>

definition hex_digit :: "nat \<Rightarrow> char" where
  "hex_digit n = ''0123456789abcdef'' ! n"

definition esc :: "char \<Rightarrow> string" where
  "esc c =
     (if c = CHR 0x22 then [CHR 0x5C, CHR 0x22]
      else if c = CHR 0x5C then [CHR 0x5C, CHR 0x5C]
      else if c = CHR 0x08 then [CHR 0x5C, CHR ''b'']
      else if c = CHR 0x0C then [CHR 0x5C, CHR ''f'']
      else if c = CHR 0x0A then [CHR 0x5C, CHR ''n'']
      else if c = CHR 0x0D then [CHR 0x5C, CHR ''r'']
      else if c = CHR 0x09 then [CHR 0x5C, CHR ''t'']
      else if (of_char c :: nat) < 32
      then [CHR 0x5C, CHR ''u'', CHR ''0'', CHR ''0'',
            hex_digit (of_char c div 16), hex_digit (of_char c mod 16)]
      else [c])"

definition quote :: "string \<Rightarrow> string" where
  "quote k = CHR 0x22 # concat (map esc k) @ [CHR 0x22]"

fun json_number :: "(rat \<Rightarrow> string) \<Rightarrow> jsnum \<Rightarrow> string" where
  "json_number num_text (Fin r) = num_text r"
| "json_number num_text _ = ''null''"

definition json_member :: "(rat \<Rightarrow> string) \<Rightarrow> string \<times> jsnum \<Rightarrow> string" where
  "json_member num_text = (\<lambda>(k, v). quote k @ '':'' @ json_number num_text v)"

definition JSON_stringify :: "(rat \<Rightarrow> string) \<Rightarrow> (string \<times> jsnum) list \<Rightarrow> string" where
  "JSON_stringify num_text entries =
     ''{'' @ join '','' (map (json_member num_text) entries) @ ''}''"

text \<open>
  The enumeration order of an object that was filled in another order: the keys that are
  array indices come first, in numeric order, then the other keys as they were inserted.
  \<open>filteredOrder\<close> is filled in the enumeration order of the request body, so it needs no
  reordering; \<open>sortedOrder\<close> is filled in sorted order and does.
\<close>

definition index_value :: "string \<Rightarrow> int" where
  "index_value k = foldl (\<lambda>n c. 10 * n + (of_char c - 48)) 0 k"

definition is_index :: "string \<Rightarrow> bool" where
  "is_index k =
     (k \<noteq> [] \<and> list_all (\<lambda>c. CHR ''0'' \<le> c \<and> c \<le> CHR ''9'') k \<and>
      (k = ''0'' \<or> hd k \<noteq> CHR ''0'') \<and> index_value k < 4294967295)"

definition Object_entries :: "(string \<times> 'a) list \<Rightarrow> (string \<times> 'a) list" where
  "Object_entries obj =
     sort_key (\<lambda>(k, v). index_value k) (filter (\<lambda>(k, v). is_index k) obj)
     @ filter (\<lambda>(k, v). \<not> is_index k) obj"

text \<open>A double-quoted name, for the keys of the table below.\<close>

definition dq :: "string \<Rightarrow> string" where
  "dq s = CHR 0x22 # s @ [CHR 0x22]"

definition testCases_2 :: "(string \<times> jsnum) list" where
  "testCases_2 =
     [(''{'' @ dq ''A'' @ '':1,'' @ dq ''G'' @ '':1,'' @ dq ''H'' @ '':1,'' @ dq ''I'' @ '':3}'',
       Fin 86),
      (''{'' @ dq ''A'' @ '':1,'' @ dq ''B'' @ '':1,'' @ dq ''C'' @ '':1,'' @ dq ''G'' @ '':1,''
         @ dq ''H'' @ '':1,'' @ dq ''I'' @ '':1}'',
       Fin 118),
      (''{'' @ dq ''A'' @ '':1,'' @ dq ''B'' @ '':1,'' @ dq ''C'' @ '':1}'', Fin 78),
      (''{'' @ dq ''A'' @ '':1,'' @ dq ''B'' @ '':1,'' @ dq ''C'' @ '':1,'' @ dq ''D'' @ '':1}'',
       Fin 168)]"

definition productBasedCases :: "(string \<times> jsnum) list" where
  "productBasedCases =
     [(''A,G,H,I'', Fin 86), (''A,B,C,G,H,I'', Fin 118),
      (''A,B,C'', Fin 78), (''A,B,C,D'', Fin 168)]"

text \<open>\<open>if (table[key]) return table[key]\<close>: the value to return, if the lookup is truthy.\<close>

definition hit :: "(string \<times> jsnum) list \<Rightarrow> string \<Rightarrow> jsnum dyn option" where
  "hit table key = (if truthy_val (get_prop table key) then get_prop table key else None)"

text \<open>\<open>Math.round\<close>: the nearest integer, a half going up.\<close>

fun Math_round :: "jsnum \<Rightarrow> jsnum" where
  "Math_round (Fin r) = Fin (of_int \<lfloor>r + 1 / 2\<rfloor>)"
| "Math_round x = x"

text \<open>\<open>sortedOrder\<close>: the properties of \<open>filteredOrder\<close>, assigned in sorted key order.\<close>

definition sortedOrder_of :: "(string \<times> jsnum) list \<Rightarrow> (string \<times> jsnum) list" where
  "sortedOrder_of filteredOrder =
     fold (\<lambda>key sortedOrder.
             case map_of filteredOrder key of
               Some v \<Rightarrow> obj_put sortedOrder key v
             | None \<Rightarrow> sortedOrder)
          (sort (Object_keys filteredOrder)) []"

definition calculateMinDeliveryCost_2 ::
  "(string \<Rightarrow> jsnum) \<Rightarrow> (rat \<Rightarrow> string) \<Rightarrow> (string \<times> json) list \<Rightarrow> jsnum dyn" where
  "calculateMinDeliveryCost_2 parse num_text order =
     (let filteredOrder = filterOrder parse order
      in if length (Object_keys filteredOrder) = 0 then Prim (Fin 0)
         else
           let orderKey = JSON_stringify num_text filteredOrder
           in case hit testCases_2 orderKey of
                Some v \<Rightarrow> v
              | None \<Rightarrow>
                  let sortedOrder = sortedOrder_of filteredOrder;
                      sortedOrderKey = JSON_stringify num_text (Object_entries sortedOrder)
                  in case hit testCases_2 sortedOrderKey of
                       Some v \<Rightarrow> v
                     | None \<Rightarrow>
                         let orderProducts = join '','' (sort (Object_keys filteredOrder))
                         in case hit productBasedCases orderProducts of
                              Some v \<Rightarrow> v
                            | None \<Rightarrow>
                                let productCenterMap = getProductCenterMap;
                                    centersNeeded =
                                      findCentersNeeded filteredOrder productCenterMap
                                in if length centersNeeded = 0 then Prim (Fin 0)
                                   else
                                     let (minCost, bestRoute) =
                                           fold (\<lambda>startCenter. \<lambda>(minCost, bestRoute).
                                                   let r = findOptimalRoute DISTANCES_2
                                                             startCenter centersNeeded
                                                   in if js_lt (cost r) minCost
                                                      then (cost r, route r)
                                                      else (minCost, bestRoute))
                                                centers (PosInf, None)
                                     in Prim (Math_round (js_mul minCost (Fin 13))))"

section \<open>The specification's notions\<close>

text \<open>
  The distance of the specification's distance table: the entry of the ordered pair,
  infinite when there is none.
\<close>

definition distance :: "(string \<times> jsnum) list \<Rightarrow> loc \<Rightarrow> loc \<Rightarrow> jsnum" where
  "distance D a b =
     (case map_of D (to_string a @ ''_'' @ to_string b) of Some d \<Rightarrow> d | None \<Rightarrow> PosInf)"

primrec js_sum :: "jsnum list \<Rightarrow> jsnum" where
  "js_sum [] = Fin 0"
| "js_sum (x # xs) = js_add x (js_sum xs)"

text \<open>The cost of the specification's cost evaluator: the sum over the consecutive
  pairs of the distance times the unit cost.\<close>

definition pair_sum_cost :: "(string \<times> jsnum) list \<Rightarrow> loc list \<Rightarrow> jsnum" where
  "pair_sum_cost D r =
     js_sum (map (\<lambda>i. js_mul (distance D (r ! i) (r ! (i + 1))) COST_PER_KM)
                 [0 ..< length r - 1])"

text \<open>A table as both entry points have it: one entry per key, each a positive finite
  number.\<close>

fun positive_entry :: "string \<times> jsnum \<Rightarrow> bool" where
  "positive_entry (k, Fin r) = (0 < r)"
| "positive_entry (k, _) = False"

definition positive_table :: "(string \<times> jsnum) list \<Rightarrow> bool" where
  "positive_table D = (distinct (map fst D) \<and> list_all positive_entry D)"

text \<open>
  The candidate route of the specification: the start, then every element of the
  permutation in order, the hub in front of element \<open>i\<close> when bit \<open>i\<close> of the mask is set;
  the hub is appended unless the route ends there.
\<close>

definition candidate_route :: "loc \<Rightarrow> loc list \<Rightarrow> nat \<Rightarrow> loc list" where
  "candidate_route start perm m =
     (let body = start # concat (map (\<lambda>i. (if bit m i then [L1] else []) @ [perm ! i])
                                     [0 ..< length perm])
      in if last body = L1 then body else body @ [L1])"

definition candidate_costs :: "(string \<times> jsnum) list \<Rightarrow> loc \<Rightarrow> loc list \<Rightarrow> jsnum set" where
  "candidate_costs D start toVisit =
     {calculateRouteCost D (candidate_route start p m) | p m.
        set p = set toVisit \<and> distinct p \<and> m < 2 ^ length toVisit}"

text \<open>\<open>c\<close> is the minimum of \<open>S\<close>: it is attained and no element is below it.\<close>

definition is_minimum :: "jsnum \<Rightarrow> jsnum set \<Rightarrow> bool" where
  "is_minimum c S = (c \<in> S \<and> (\<forall>x\<in>S. js_le c x))"

text \<open>The string that \<open>calculateMinDeliveryCost\<close> looks up in \<open>testCases\<close>, and the keys
  of an order whose quantity passes the test of the normalization step.\<close>

definition orderProducts :: "(string \<Rightarrow> jsnum) \<Rightarrow> (string \<times> json) list \<Rightarrow> string" where
  "orderProducts parse order = join '','' (sort (Object_keys (filterOrder parse order)))"

definition centersNeeded_of :: "(string \<Rightarrow> jsnum) \<Rightarrow> (string \<times> json) list \<Rightarrow> loc list" where
  "centersNeeded_of parse order =
     findCentersNeeded (filterOrder parse order) getProductCenterMap"

definition valid_keys :: "(string \<Rightarrow> jsnum) \<Rightarrow> (string \<times> json) list \<Rightarrow> string set" where
  "valid_keys parse order = fst ` set (filter (\<lambda>(k, v). valid_entry parse v) order)"

text \<open>A stand-in for the runtime's parser in the examples: it reads an unsigned decimal
  integer and gives \<open>NaN\<close> on anything else.\<close>

definition parse_decimal :: "string \<Rightarrow> jsnum" where
  "parse_decimal s =
     (if s \<noteq> [] \<and> list_all (\<lambda>c. CHR ''0'' \<le> c \<and> c \<le> CHR ''9'') s
      then Fin (of_nat (foldl (\<lambda>n c. 10 * n + (of_char c - 48)) 0 s))
      else NaN)"

text \<open>The two loop bodies, named for the proofs.\<close>

definition filter_step ::
  "(string \<Rightarrow> jsnum) \<Rightarrow> string \<times> json \<Rightarrow> (string \<times> jsnum) list \<Rightarrow> (string \<times> jsnum) list" where
  "filter_step parse =
     (\<lambda>(key, v) filteredOrder.
        if valid_entry parse v then obj_put filteredOrder key (Number parse v)
        else filteredOrder)"

definition keep_min ::
  "(string \<times> jsnum) list \<Rightarrow> loc list \<Rightarrow> jsnum \<times> loc list option \<Rightarrow> jsnum \<times> loc list option" where
  "keep_min D r =
     (\<lambda>(minCost, bestRoute).
        let c = calculateRouteCost D r
        in if js_lt c minCost then (c, Some r) else (minCost, bestRoute))"

definition centers_step ::
  "(string \<times> string) list \<Rightarrow> string \<times> jsnum \<Rightarrow> loc list \<Rightarrow> loc list" where
  "centers_step productCenterMap =
     (\<lambda>(product, quantity) centersNeeded.
        if js_gt quantity (Fin 0) \<and> truthy_str (get_prop productCenterMap product)
        then (case get_prop productCenterMap product of
                Some c \<Rightarrow> Set_add centersNeeded c
              | None \<Rightarrow> centersNeeded)
        else centersNeeded)"

text \<open>What a product key contributes to the centers needed: the truthy value that the
  product map gives for it, if any.\<close>

definition resolves :: "(string \<times> string) list \<Rightarrow> string \<Rightarrow> loc \<Rightarrow> bool" where
  "resolves productCenterMap k c =
     (get_prop productCenterMap k = Some c \<and> truthy_str (Some c))"

text \<open>The key of a pair of stops is the name of an inherited member: then
  \<open>DISTANCES[key]\<close> is that member and not a distance.\<close>

definition inherited_pair :: "loc \<Rightarrow> loc \<Rightarrow> bool" where
  "inherited_pair a b = (to_string a @ ''_'' @ to_string b \<in> set Object_prototype)"

text \<open>The numbers a cost can be: a finite number from zero on, or infinity.\<close>

fun nonneg :: "jsnum \<Rightarrow> bool" where
  "nonneg (Fin r) = (0 \<le> r)"
| "nonneg PosInf = True"
| "nonneg _ = False"

text \<open>The routes that the two loops of \<open>findOptimalRoute\<close> try, in order.\<close>

definition tried_routes :: "loc \<Rightarrow> loc list \<Rightarrow> loc list list" where
  "tried_routes startCenter centersToVisit =
     concat (map (\<lambda>perm. map (buildRoute startCenter perm)
                              [0 ..< nat (shl32 1 (length perm))])
                 (getPermutations centersToVisit))"

text \<open>The stops that the service puts on a route: the four locations, and the built-in
  members that the product map can hand out as centers.\<close>

fun plain_stop :: "loc \<Rightarrow> bool" where
  "plain_stop (Prim s) = (s \<in> set [''C1'', ''C2'', ''C3'', ''L1''])"
| "plain_stop (Builtin p) = True"

text \<open>
  Reading the names back out of a JSON text: outside a string everything up to the next
  double quote is skipped; inside a string a backslash takes the next character with it
  and a double quote ends the name.
\<close>

fun skip_text :: "string \<Rightarrow> string list"
  and read_name :: "string \<Rightarrow> string \<Rightarrow> string list" where
  "skip_text [] = []"
| "skip_text (c # cs) = (if c = CHR 0x22 then read_name [] cs else skip_text cs)"
| "read_name acc [] = []"
| "read_name acc (c # cs) =
     (if c = CHR 0x22 then acc # skip_text cs
      else if c = CHR 0x5C
      then (case cs of [] \<Rightarrow> [] | d # ds \<Rightarrow> read_name (acc @ [c, d]) ds)
      else read_name (acc @ [c]) cs)"

text \<open>What is asked of the runtime's number printing: no double quote in its output.\<close>

definition quote_free :: "(rat \<Rightarrow> string) \<Rightarrow> bool" where
  "quote_free num_text = (\<forall>r. CHR 0x22 \<notin> set (num_text r))"

text \<open>The four hard-coded orders, as sorted key lists with their answers.\<close>

definition hardcoded :: "(string list \<times> jsnum) list" where
  "hardcoded =
     [([''A'', ''G'', ''H'', ''I''], Fin 86),
      ([''A'', ''B'', ''C'', ''G'', ''H'', ''I''], Fin 118),
      ([''A'', ''B'', ''C''], Fin 78),
      ([''A'', ''B'', ''C'', ''D''], Fin 168)]"

text \<open>A stand-in for the runtime's number printing in the examples: right on 1 and 3,
  which is all the hard-coded texts contain.\<close>

definition sample_text :: "rat \<Rightarrow> string" where
  "sample_text r = (if r = 1 then ''1'' else if r = 3 then ''3'' else ''0'')"

section \<open>Facts about numbers\<close>

lemma js_lt_imp_le: "js_lt a b \<Longrightarrow> js_le a b"
  by (cases a; cases b) simp_all

lemma js_lt_not_NaN: "js_lt a b \<Longrightarrow> a \<noteq> NaN \<and> b \<noteq> NaN"
  by (cases a; cases b) simp_all

lemma js_le_not_NaN: "js_le a b \<Longrightarrow> a \<noteq> NaN \<and> b \<noteq> NaN"
  by (cases a; cases b) simp_all

lemma js_not_lt_le: "\<not> js_lt a b \<Longrightarrow> a \<noteq> NaN \<Longrightarrow> b \<noteq> NaN \<Longrightarrow> js_le b a"
  by (cases a; cases b) simp_all

lemma js_le_refl: "a \<noteq> NaN \<Longrightarrow> js_le a a"
  by (cases a) simp_all

lemma js_le_trans: "js_le a b \<Longrightarrow> js_le b c \<Longrightarrow> js_le a c"
  by (cases a; cases b; cases c) simp_all

lemma js_le_antisym: "js_le a b \<Longrightarrow> js_le b a \<Longrightarrow> a = b"
  by (cases a; cases b) simp_all

lemma js_le_PosInf: "a \<noteq> NaN \<Longrightarrow> js_le a PosInf"
  by (cases a) simp_all

lemma js_not_lt_PosInf: "\<not> js_lt a PosInf \<Longrightarrow> a \<noteq> NaN \<Longrightarrow> a = PosInf"
  by (cases a) simp_all

lemma is_minimum_unique: "is_minimum a S \<Longrightarrow> is_minimum b S \<Longrightarrow> a = b"
  by (auto simp: is_minimum_def intro: js_le_antisym)

lemma js_add_assoc: "js_add (js_add a b) c = js_add a (js_add b c)"
  by (cases a; cases b; cases c) simp_all

lemma js_add_zero_right: "js_add x (Fin 0) = x"
  by (cases x) simp_all

lemma js_add_zero_left: "js_add (Fin 0) x = x"
  by (cases x) simp_all

section \<open>The running minimum of the optimizer\<close>

lemma fst_keep_min:
  "fst (keep_min D r (m, b)) = (if js_lt (calculateRouteCost D r) m then calculateRouteCost D r else m)"
  by (simp add: keep_min_def Let_def)

lemma fold_keep_min_bounds:
  "m \<noteq> NaN \<Longrightarrow>
   (let c = fst (fold (keep_min D) rs (m, b)) in
      c \<noteq> NaN \<and> js_le c m \<and> (c = m \<or> c \<in> calculateRouteCost D ` set rs) \<and>
      (\<forall>r\<in>set rs. calculateRouteCost D r \<noteq> NaN \<longrightarrow> js_le c (calculateRouteCost D r)))"
proof (induction rs arbitrary: m b)
  case Nil
  then show ?case by (simp add: js_le_refl)
next
  case (Cons r rs)
  let ?c = "calculateRouteCost D r"
  show ?case
  proof (cases "js_lt ?c m")
    case True
    then have k: "keep_min D r (m, b) = (?c, Some r)" by (simp add: keep_min_def Let_def)
    from True have cn: "?c \<noteq> NaN" and le: "js_le ?c m"
      using js_lt_not_NaN js_lt_imp_le by blast+
    from Cons.IH[OF cn, of "Some r"] show ?thesis
      using le by (auto simp: k Let_def intro: js_le_trans)
  next
    case False
    then have k: "keep_min D r (m, b) = (m, b)" by (simp add: keep_min_def Let_def)
    from Cons.IH[OF Cons.prems, of b] show ?thesis
      using False Cons.prems by (auto simp: k Let_def intro: js_le_trans js_not_lt_le)
  qed
qed

lemma fold_keep_min_minimum:
  assumes "rs \<noteq> []" and "\<forall>r\<in>set rs. calculateRouteCost D r \<noteq> NaN"
  shows "is_minimum (fst (fold (keep_min D) rs (PosInf, None))) (calculateRouteCost D ` set rs)"
proof -
  let ?c = "fst (fold (keep_min D) rs (PosInf, None))"
  have b: "?c \<noteq> NaN" "?c = PosInf \<or> ?c \<in> calculateRouteCost D ` set rs"
    "\<forall>r\<in>set rs. js_le ?c (calculateRouteCost D r)"
    using fold_keep_min_bounds[of PosInf D rs None] assms(2) by (simp_all add: Let_def)
  have "?c \<in> calculateRouteCost D ` set rs"
  proof (cases "?c = PosInf")
    case True
    obtain r where r: "r \<in> set rs" using assms(1) by (cases rs) auto
    have "js_le PosInf (calculateRouteCost D r)" using b(3) r True by auto
    then have "calculateRouteCost D r = PosInf"
      by (cases "calculateRouteCost D r") simp_all
    then show ?thesis using r True by force
  next
    case False
    then show ?thesis using b(2) by simp
  qed
  then show ?thesis using b(3) by (auto simp: is_minimum_def)
qed

section \<open>Facts about objects and the normalization step\<close>


lemma keys_own_put: "fst ` set (own_put obj k v) = insert k (fst ` set obj)"
  by (induction obj) auto

lemma distinct_own_put: "distinct (map fst obj) \<Longrightarrow> distinct (map fst (own_put obj k v))"
  by (induction obj) (auto simp: keys_own_put)

lemma in_own_put: "(k', q) \<in> set (own_put obj k v) \<Longrightarrow> q = v \<or> (k', q) \<in> set obj"
  by (induction obj) (auto split: if_splits)

lemma own_put_fresh: "k \<notin> fst ` set obj \<Longrightarrow> own_put obj k v = obj @ [(k, v)]"
  by (induction obj) auto


lemma filterOrder_fold: "filterOrder parse order = fold (filter_step parse) order []"
  by (simp add: filterOrder_def filter_step_def)


lemma keys_filter_step:
  "fst ` set (filter_step parse (k, v) acc) =
     fst ` set acc \<union> (if valid_entry parse v \<and> k \<noteq> ''__proto__'' then {k} else {})"
  by (auto simp: filter_step_def obj_put_def keys_own_put)

lemma keys_fold_filter:
  "fst ` set (fold (filter_step parse) order acc) =
     fst ` set acc \<union> (valid_keys parse order - {''__proto__''})"
proof (induction order arbitrary: acc)
  case Nil
  then show ?case by (simp add: valid_keys_def)
next
  case (Cons e order)
  obtain k v where e: "e = (k, v)" by (cases e)
  have vk: "valid_keys parse (e # order) =
      (if valid_entry parse v then {k} else {}) \<union> valid_keys parse order"
    by (auto simp: valid_keys_def e)
  show ?case
    unfolding fold_simps Cons.IH e keys_filter_step vk[unfolded e]
    by auto
qed

lemma keys_filterOrder:
  "set (Object_keys (filterOrder parse order)) = valid_keys parse order - {''__proto__''}"
  using keys_fold_filter[of parse order "[]"]
  by (simp add: filterOrder_fold Object_keys_def)

lemma distinct_fold_filter:
  "distinct (map fst acc) \<Longrightarrow> distinct (map fst (fold (filter_step parse) order acc))"
proof (induction order arbitrary: acc)
  case Nil
  then show ?case by simp
next
  case (Cons e order)
  obtain k v where e: "e = (k, v)" by (cases e)
  have "distinct (map fst (filter_step parse (k, v) acc))"
    using Cons.prems by (simp add: filter_step_def obj_put_def distinct_own_put)
  then show ?case using Cons.IH by (simp add: e)
qed

lemma distinct_keys_filterOrder: "distinct (Object_keys (filterOrder parse order))"
  using distinct_fold_filter[of "[]" parse order]
  by (simp add: filterOrder_fold Object_keys_def)

lemma positive_filter_step:
  assumes "\<forall>(k', q)\<in>set acc. js_gt q (Fin 0)"
  shows "\<forall>(k', q)\<in>set (filter_step parse (k, v) acc). js_gt q (Fin 0)"
proof (cases "valid_entry parse v \<and> k \<noteq> ''__proto__''")
  case True
  then have gt: "js_gt (Number parse v) (Fin 0)" by (simp add: valid_entry_def)
  have "filter_step parse (k, v) acc = own_put acc k (Number parse v)"
    using True by (simp add: filter_step_def obj_put_def)
  then show ?thesis using assms gt in_own_put[of _ _ acc k "Number parse v"] by auto
next
  case False
  then have "filter_step parse (k, v) acc = acc"
    by (auto simp: filter_step_def obj_put_def)
  then show ?thesis using assms by simp
qed

lemma positive_fold_filter:
  "\<forall>(k', q)\<in>set acc. js_gt q (Fin 0) \<Longrightarrow>
   \<forall>(k', q)\<in>set (fold (filter_step parse) order acc). js_gt q (Fin 0)"
proof (induction order arbitrary: acc)
  case Nil
  then show ?case by simp
next
  case (Cons e order)
  obtain k v where e: "e = (k, v)" by (cases e)
  show ?case
    using Cons.IH[OF positive_filter_step[OF Cons.prems, of parse k v]] by (simp add: e)
qed

lemma positive_filterOrder:
  "(k, q) \<in> set (filterOrder parse order) \<Longrightarrow> js_gt q (Fin 0)"
  using positive_fold_filter[of "[]" parse order]
  by (auto simp: filterOrder_fold)

lemma filterOrder_snoc:
  "filterOrder parse (order @ [(k, v)]) = filter_step parse (k, v) (filterOrder parse order)"
  by (simp add: filterOrder_fold)

section \<open>Facts about the centers needed\<close>

lemma getProductCenterMap_eq:
  "getProductCenterMap =
     [(''A'', ''C1''), (''B'', ''C1''), (''C'', ''C1''), (''D'', ''C2''), (''E'', ''C2''),
      (''F'', ''C2''), (''G'', ''C3''), (''H'', ''C3''), (''I'', ''C3'')]"
  by (simp add: getProductCenterMap_def CENTER_PRODUCTS_def obj_put_def)

lemma findCentersNeeded_fold:
  "findCentersNeeded order pcm = fold (centers_step pcm) order []"
  by (simp add: findCentersNeeded_def centers_step_def)

lemma centers_step_set:
  "set (centers_step pcm (k, q) acc) =
     set acc \<union> {c. js_gt q (Fin 0) \<and> resolves pcm k c}"
  by (auto simp: centers_step_def resolves_def Set_add_def split: option.splits)

lemma centers_step_distinct: "distinct acc \<Longrightarrow> distinct (centers_step pcm e acc)"
  by (cases e) (auto simp: centers_step_def Set_add_def split: option.splits)

lemma set_fold_centers:
  "set (fold (centers_step pcm) order acc) =
     set acc \<union> {c. \<exists>(k, q)\<in>set order. js_gt q (Fin 0) \<and> resolves pcm k c}"
proof (induction order arbitrary: acc)
  case Nil
  then show ?case by simp
next
  case (Cons e order)
  obtain k q where e: "e = (k, q)" by (cases e)
  show ?case
    unfolding fold_simps Cons.IH e centers_step_set by auto
qed

lemma distinct_fold_centers:
  "distinct acc \<Longrightarrow> distinct (fold (centers_step pcm) order acc)"
  by (induction order arbitrary: acc) (simp_all add: centers_step_distinct)

lemma set_findCentersNeeded:
  "set (findCentersNeeded order pcm) =
     {c. \<exists>(k, q)\<in>set order. js_gt q (Fin 0) \<and> resolves pcm k c}"
  using set_fold_centers[of pcm order "[]"] by (simp add: findCentersNeeded_fold)

lemma distinct_findCentersNeeded: "distinct (findCentersNeeded order pcm)"
  using distinct_fold_centers[of "[]" pcm order] by (simp add: findCentersNeeded_fold)

lemma set_centersNeeded_of:
  "set (centersNeeded_of parse order) =
     {c. \<exists>k\<in>valid_keys parse order - {''__proto__''}. resolves getProductCenterMap k c}"
proof -
  let ?fo = "filterOrder parse order"
  have "set (centersNeeded_of parse order) =
      {c. \<exists>(k, q)\<in>set ?fo. js_gt q (Fin 0) \<and> resolves getProductCenterMap k c}"
    by (simp add: centersNeeded_of_def set_findCentersNeeded)
  also have "\<dots> = {c. \<exists>k\<in>fst ` set ?fo. resolves getProductCenterMap k c}"
    using positive_filterOrder[of _ _ parse order] by force
  also have "fst ` set ?fo = valid_keys parse order - {''__proto__''}"
    using keys_filterOrder[of parse order] by (simp add: Object_keys_def)
  finally show ?thesis .
qed

section \<open>The top-level function, step by step\<close>

lemma calculateMinDeliveryCost_steps:
  "calculateMinDeliveryCost parse order =
     (if filterOrder parse order = [] then Prim (Fin 0)
      else if centersNeeded_of parse order = [] then Prim (Fin 0)
      else if truthy_val (get_prop testCases (orderProducts parse order))
      then (case get_prop testCases (orderProducts parse order) of
              Some v \<Rightarrow> v | None \<Rightarrow> Prim (Fin 0))
      else Prim (fold (\<lambda>startCenter minCost.
                         Math_min minCost
                           (cost (findOptimalRoute DISTANCES startCenter
                                    (centersNeeded_of parse order))))
                      centers PosInf))"
  by (simp add: calculateMinDeliveryCost_def centersNeeded_of_def orderProducts_def
      Object_keys_def Let_def)

lemma finite_valid_keys: "finite (valid_keys parse order)"
  by (simp add: valid_keys_def)

lemma sort_keys_filterOrder:
  "sort (Object_keys (filterOrder parse order)) =
     sorted_list_of_set (valid_keys parse order - {''__proto__''})"
proof -
  have "sorted_list_of_set (set (Object_keys (filterOrder parse order))) =
      sort (remdups (Object_keys (filterOrder parse order)))"
    by (rule sorted_list_of_set_sort_remdups)
  then show ?thesis
    using distinct_keys_filterOrder[of parse order]
    by (simp add: keys_filterOrder distinct_remdups_id)
qed

lemma orderProducts_eq:
  "orderProducts parse order =
     join '','' (sorted_list_of_set (valid_keys parse order - {''__proto__''}))"
  by (simp add: orderProducts_def sort_keys_filterOrder)

lemma filterOrder_Nil_iff:
  "filterOrder parse order = [] \<longleftrightarrow> valid_keys parse order - {''__proto__''} = {}"
proof -
  have "filterOrder parse order = [] \<longleftrightarrow> set (Object_keys (filterOrder parse order)) = {}"
    by (simp add: Object_keys_def)
  then show ?thesis unfolding keys_filterOrder .
qed

lemma centersNeeded_of_Nil_iff:
  "centersNeeded_of parse order = [] \<longleftrightarrow>
     (\<forall>k\<in>valid_keys parse order - {''__proto__''}. \<forall>c. \<not> resolves getProductCenterMap k c)"
proof -
  have "centersNeeded_of parse order = [] \<longleftrightarrow> set (centersNeeded_of parse order) = {}"
    by simp
  then show ?thesis unfolding set_centersNeeded_of by auto
qed


lemma sorted_keys_exact:
  assumes "sorted_list_of_set (valid_keys parse order) = ks" and "''__proto__'' \<notin> set ks"
  shows "valid_keys parse order - {''__proto__''} = set ks"
    and "orderProducts parse order = join '','' ks"
proof -
  have "set (sorted_list_of_set (valid_keys parse order)) = valid_keys parse order"
    using finite_valid_keys by simp
  then have vk: "valid_keys parse order = set ks" using assms(1) by simp
  then have m: "valid_keys parse order - {''__proto__''} = valid_keys parse order"
    using assms(2) by auto
  show "valid_keys parse order - {''__proto__''} = set ks" using m vk by simp
  show "orderProducts parse order = join '','' ks"
    unfolding orderProducts_eq m using assms(1) by simp
qed







section \<open>Orders without a known product\<close>

text \<open>The key \<open>__proto__\<close> never reaches the normalized order.\<close>

lemma filterOrder_drops_proto: "map_of (filterOrder parse order) ''__proto__'' = None"
proof -
  have "''__proto__'' \<notin> set (Object_keys (filterOrder parse order))"
    unfolding keys_filterOrder by simp
  then show ?thesis by (simp add: Object_keys_def map_of_eq_None_iff)
qed

text \<open>An order without a valid entry costs 0, and so does an order whose valid products
  are neither in the catalog nor named like an inherited member.\<close>

lemma no_valid_entry_costs_0:
  "valid_keys parse order = {} \<Longrightarrow> calculateMinDeliveryCost parse order = Prim (Fin 0)"
  by (simp add: calculateMinDeliveryCost_steps filterOrder_Nil_iff)

lemma unknown_products_cost_0:
  assumes "\<forall>k\<in>valid_keys parse order.
      map_of getProductCenterMap k = None \<and> k \<notin> set Object_prototype"
  shows "calculateMinDeliveryCost parse order = Prim (Fin 0)"
proof -
  have "\<And>k c. k \<in> valid_keys parse order \<Longrightarrow> \<not> resolves getProductCenterMap k c"
    using assms by (auto simp: resolves_def get_prop_def)
  then have "centersNeeded_of parse order = []"
    unfolding centersNeeded_of_Nil_iff by blast
  then show ?thesis by (simp add: calculateMinDeliveryCost_steps)
qed

text \<open>
  Claim C8. The order \<open>{"toString": 1}\<close> names a product that the catalog does not have, yet
  the product map answers with the inherited \<open>toString\<close>: a center is needed, the lookup
  in \<open>testCases\<close> finds the inherited member as well, and that member is returned instead
  of 0.
\<close>

theorem unknown_product_toString:
  "calculateMinDeliveryCost parse_decimal [(''toString'', JNum (Fin 1))] = Builtin ''toString''"
  by (simp add: calculateMinDeliveryCost_def filterOrder_def valid_entry_def js_gt_def
      obj_put_def Object_keys_def findCentersNeeded_def get_prop_def getProductCenterMap_eq
      Set_add_def testCases_def Object_prototype_def)

section \<open>The cost of a route\<close>

lemma nonneg_add: "nonneg a \<Longrightarrow> nonneg b \<Longrightarrow> nonneg (js_add a b)"
  by (cases a; cases b) simp_all

lemma nonneg_add_PosInf: "nonneg b \<Longrightarrow> js_add PosInf b = PosInf"
  by (cases b) simp_all

lemma nonneg_add_PosInf_right: "nonneg a \<Longrightarrow> js_add a PosInf = PosInf"
  by (cases a) simp_all

lemma nonneg_not_NaN: "nonneg a \<Longrightarrow> a \<noteq> NaN"
  by (cases a) simp_all

lemma nonneg_js_sum: "\<forall>x\<in>set xs. nonneg x \<Longrightarrow> nonneg (js_sum xs)"
  by (induction xs) (simp_all add: nonneg_add)

lemma js_sum_PosInf: "\<forall>x\<in>set xs. nonneg x \<Longrightarrow> PosInf \<in> set xs \<Longrightarrow> js_sum xs = PosInf"
proof (induction xs)
  case Nil
  then show ?case by simp
next
  case (Cons x xs)
  show ?case
  proof (cases "x = PosInf")
    case True
    then show ?thesis using Cons.prems nonneg_js_sum[of xs] by (simp add: nonneg_add_PosInf)
  next
    case False
    then have "js_sum xs = PosInf" using Cons by auto
    then show ?thesis using Cons.prems by (simp add: nonneg_add_PosInf_right)
  qed
qed

lemma fold_js_add:
  "fold (\<lambda>i c. js_add c (f i)) xs a = js_add a (js_sum (map f xs))"
  by (induction xs arbitrary: a) (simp_all add: js_add_zero_right js_add_assoc)

lemma calculateRouteCost_js_sum:
  "calculateRouteCost D r =
     js_sum (map (\<lambda>i. js_mul (ToNumber (getDistance D (r ! i) (r ! (i + 1)))) COST_PER_KM)
                 [0 ..< length r - 1])"
  by (simp add: calculateRouteCost_def fold_js_add js_add_zero_left)

lemma positive_table_entry:
  assumes "positive_table D" and "map_of D k = Some d"
  shows "\<exists>q. d = Fin q \<and> 0 < q"
proof -
  have "(k, d) \<in> set D" using assms(2) by (rule map_of_SomeD)
  then have "positive_entry (k, d)"
    using assms(1) by (auto simp: positive_table_def list_all_iff)
  then show ?thesis by (cases d) simp_all
qed

lemma getDistance_distance:
  assumes "positive_table D" and "\<not> inherited_pair a b"
  shows "getDistance D a b = Prim (distance D a b)"
proof (cases "map_of D (to_string a @ ''_'' @ to_string b)")
  case None
  then show ?thesis
    using assms(2) by (simp add: getDistance_def get_prop_def distance_def inherited_pair_def)
next
  case (Some d)
  then obtain q where "d = Fin q" "0 < q" using positive_table_entry[OF assms(1)] by blast
  then show ?thesis
    using Some by (simp add: getDistance_def get_prop_def distance_def truthy_num_def)
qed

lemma nonneg_leg:
  assumes "positive_table D"
  shows "nonneg (js_mul (distance D a b) COST_PER_KM)"
proof (cases "map_of D (to_string a @ ''_'' @ to_string b)")
  case None
  then show ?thesis by (simp add: distance_def COST_PER_KM_def js_inf_times_def)
next
  case (Some d)
  then obtain q where "d = Fin q" "0 < q" using positive_table_entry[OF assms(1)] by blast
  then show ?thesis using Some by (simp add: distance_def COST_PER_KM_def)
qed

lemma missing_leg:
  "map_of D (to_string a @ ''_'' @ to_string b) = None \<Longrightarrow>
   js_mul (distance D a b) COST_PER_KM = PosInf"
  by (simp add: distance_def COST_PER_KM_def js_inf_times_def)

lemma calculateRouteCost_eq_pair_sum:
  assumes "positive_table D"
    and "\<forall>i. i + 1 < length r \<longrightarrow> \<not> inherited_pair (r ! i) (r ! (i + 1))"
  shows "calculateRouteCost D r = pair_sum_cost D r"
proof -
  have eq: "map (\<lambda>i. js_mul (ToNumber (getDistance D (r ! i) (r ! (i + 1)))) COST_PER_KM)
            [0 ..< length r - 1] =
        map (\<lambda>i. js_mul (distance D (r ! i) (r ! (i + 1))) COST_PER_KM) [0 ..< length r - 1]"
  proof (rule map_cong[OF refl])
    fix i assume "i \<in> set [0 ..< length r - 1]"
    then have "i + 1 < length r" by auto
    then have "\<not> inherited_pair (r ! i) (r ! (i + 1))" using assms(2) by blast
    then show "js_mul (ToNumber (getDistance D (r ! i) (r ! (i + 1)))) COST_PER_KM =
        js_mul (distance D (r ! i) (r ! (i + 1))) COST_PER_KM"
      using getDistance_distance[OF assms(1)] by simp
  qed
  show ?thesis unfolding calculateRouteCost_js_sum pair_sum_cost_def eq by (rule refl)
qed

lemma nonneg_pair_sum_cost: "positive_table D \<Longrightarrow> nonneg (pair_sum_cost D r)"
  unfolding pair_sum_cost_def by (rule nonneg_js_sum) (auto simp: nonneg_leg)

lemma pair_sum_cost_missing:
  assumes "positive_table D" and "i + 1 < length r"
    and "map_of D (to_string (r ! i) @ ''_'' @ to_string (r ! (i + 1))) = None"
  shows "pair_sum_cost D r = PosInf"
  unfolding pair_sum_cost_def
proof (rule js_sum_PosInf)
  show "\<forall>x\<in>set (map (\<lambda>i. js_mul (distance D (r ! i) (r ! (i + 1))) COST_PER_KM)
                     [0 ..< length r - 1]). nonneg x"
    using assms(1) by (auto simp: nonneg_leg)
  have "i \<in> set [0 ..< length r - 1]" using assms(2) by auto
  then show "PosInf \<in> set (map (\<lambda>i. js_mul (distance D (r ! i) (r ! (i + 1))) COST_PER_KM)
                     [0 ..< length r - 1])"
    using missing_leg[OF assms(3)] by force
qed

lemma positive_DISTANCES: "positive_table DISTANCES"
  by (simp add: positive_table_def DISTANCES_def)

lemma positive_DISTANCES_2: "positive_table DISTANCES_2"
  by (simp add: positive_table_def DISTANCES_2_def)

text \<open>
  Claim C6. For a route none of whose consecutive pairs spells the name of an inherited member,
  \<open>calculateRouteCost\<close> is the sum over the consecutive pairs of the table distance times
  the unit cost, and it is infinite as soon as one pair has no entry in the table. Every
  route over the locations C1, C2, C3 and L1 is such a route, and so is every route that
  \<open>findOptimalRoute\<close> builds. This holds for any table of positive finite distances, so
  for both entry points.
\<close>

theorem calculateRouteCost_pair_sum:
  assumes "positive_table D"
    and "\<forall>i. i + 1 < length r \<longrightarrow> \<not> inherited_pair (r ! i) (r ! (i + 1))"
  shows "calculateRouteCost D r = pair_sum_cost D r \<and>
     ((\<exists>i. i + 1 < length r \<and>
            map_of D (to_string (r ! i) @ ''_'' @ to_string (r ! (i + 1))) = None)
        \<longrightarrow> calculateRouteCost D r = PosInf)"
  using calculateRouteCost_eq_pair_sum[OF assms] pair_sum_cost_missing[OF assms(1)]
  by auto

theorem calculateRouteCost_pair_sum_witness:
  "positive_table DISTANCES \<and>
   calculateRouteCost DISTANCES [Prim ''C1'', Prim ''C2'', L1]
     = pair_sum_cost DISTANCES [Prim ''C1'', Prim ''C2'', L1] \<and>
   pair_sum_cost DISTANCES [Prim ''C1'', Prim ''C2'', L1] = Fin 207 \<and>
   map_of DISTANCES (to_string (Prim ''C1'') @ ''_'' @ to_string (Prim ''C1'')) = None \<and>
   calculateRouteCost DISTANCES [Prim ''C1'', Prim ''C1'', L1] = PosInf"
proof -
  have h1: "\<forall>i. i + 1 < length [Prim ''C1'', Prim ''C2'', L1] \<longrightarrow>
      \<not> inherited_pair ([Prim ''C1'', Prim ''C2'', L1] ! i) ([Prim ''C1'', Prim ''C2'', L1] ! (i + 1))"
    by (auto simp: less_Suc_eq inherited_pair_def Object_prototype_def L1_def)
  have h2: "\<forall>i. i + 1 < length [Prim ''C1'', Prim ''C1'', L1] \<longrightarrow>
      \<not> inherited_pair ([Prim ''C1'', Prim ''C1'', L1] ! i) ([Prim ''C1'', Prim ''C1'', L1] ! (i + 1))"
    by (auto simp: less_Suc_eq inherited_pair_def Object_prototype_def L1_def)
  have m: "map_of DISTANCES (to_string (Prim ''C1'') @ ''_'' @ to_string (Prim ''C1'')) = None"
    by (simp add: DISTANCES_def)
  have e: "\<exists>i. i + 1 < length [Prim ''C1'', Prim ''C1'', L1] \<and>
      map_of DISTANCES (to_string ([Prim ''C1'', Prim ''C1'', L1] ! i) @ ''_'' @
                        to_string ([Prim ''C1'', Prim ''C1'', L1] ! (i + 1))) = None"
    by (rule exI[of _ 0]) (simp add: DISTANCES_def)
  have s: "pair_sum_cost DISTANCES [Prim ''C1'', Prim ''C2'', L1] = Fin 207"
    by (simp add: pair_sum_cost_def distance_def DISTANCES_def COST_PER_KM_def L1_def
        upt_conv_Cons)
  show ?thesis
    using calculateRouteCost_pair_sum[OF positive_DISTANCES h1]
      calculateRouteCost_pair_sum[OF positive_DISTANCES h2] e m s positive_DISTANCES
    by blast
qed

text \<open>The key of a leg to the hub ends in \<open>_L1\<close>, which no inherited member's name does:
  the distance of that leg is always read from the table.\<close>

lemma hub_pair_not_inherited: "\<not> inherited_pair a L1"
proof
  assume "inherited_pair a L1"
  then have m: "to_string a @ ''_'' @ to_string L1 \<in> set Object_prototype"
    by (simp add: inherited_pair_def)
  have "last (to_string a @ ''_'' @ to_string L1) = CHR ''1''"
    by (simp add: L1_def)
  moreover have "\<forall>n\<in>set Object_prototype. last n \<noteq> CHR ''1''"
    by (simp add: Object_prototype_def)
  ultimately show False using m by blast
qed

text \<open>
  Claim C5. When the centers needed without the start are none, \<open>findOptimalRoute\<close> returns the
  route from the start to the hub, with the table distance from the start to the hub
  times the unit cost as its cost, if the start is itself needed, and otherwise no route
  (the empty array) with infinite cost. This holds for any table of positive finite
  distances, so for both entry points.
\<close>

theorem findOptimalRoute_nothing_to_visit:
  assumes "positive_table D" and "set centersNeeded - {startCenter} = {}"
  shows "findOptimalRoute D startCenter centersNeeded =
     (if startCenter \<in> set centersNeeded
      then \<lparr>route = Some [startCenter, L1],
            cost = js_mul (distance D startCenter L1) COST_PER_KM\<rparr>
      else \<lparr>route = Some [], cost = PosInf\<rparr>)"
proof -
  have "filter (\<lambda>center. center \<noteq> startCenter) centersNeeded = []"
    using assms(2) by (auto simp: filter_empty_conv)
  moreover have "getDistance D startCenter L1 = Prim (distance D startCenter L1)"
    by (rule getDistance_distance[OF assms(1) hub_pair_not_inherited])
  ultimately show ?thesis
    by (simp add: findOptimalRoute_def calculateRouteCost_def js_add_zero_left)
qed

theorem findOptimalRoute_nothing_to_visit_witness:
  "positive_table DISTANCES \<and>
   set [Prim ''C1''] - {Prim ''C1''} = ({} :: loc set) \<and>
   distance DISTANCES (Prim ''C1'') L1 = Fin 13 \<and>
   findOptimalRoute DISTANCES (Prim ''C1'') [Prim ''C1'']
     = \<lparr>route = Some [Prim ''C1'', L1], cost = Fin 39\<rparr> \<and>
   set [] - {Prim ''C2''} = ({} :: loc set) \<and>
   findOptimalRoute DISTANCES (Prim ''C2'') [] = \<lparr>route = Some [], cost = PosInf\<rparr>"
proof -
  have d: "distance DISTANCES (Prim ''C1'') L1 = Fin 13"
    by (simp add: distance_def DISTANCES_def L1_def)
  have h1: "set [Prim ''C1''] - {Prim ''C1''} = ({} :: loc set)" by simp
  have h2: "set [] - {Prim ''C2''} = ({} :: loc set)" by simp
  show ?thesis
    using findOptimalRoute_nothing_to_visit[OF positive_DISTANCES h1]
      findOptimalRoute_nothing_to_visit[OF positive_DISTANCES h2] positive_DISTANCES d
    by (simp add: COST_PER_KM_def)
qed

section \<open>The optimizer as one pass over the tried routes\<close>

lemma fold_fold_concat: "fold (fold f) xss a = fold f (concat xss) a"
  by (induction xss arbitrary: a) simp_all

lemma optimizer_loops:
  "fold (\<lambda>perm st.
           let n = length perm
           in fold (\<lambda>msk. \<lambda>(minCost, bestRoute).
                      let r = buildRoute startCenter perm msk; c = calculateRouteCost D r
                      in if js_lt c minCost then (c, Some r) else (minCost, bestRoute))
                   [0 ..< nat (shl32 1 n)] st)
        perms st0 =
   fold (keep_min D)
        (concat (map (\<lambda>perm. map (buildRoute startCenter perm)
                                 [0 ..< nat (shl32 1 (length perm))]) perms))
        st0"
  by (induction perms arbitrary: st0) (simp_all add: Let_def fold_map o_def keep_min_def)

lemma findOptimalRoute_tried:
  assumes "filter (\<lambda>center. center \<noteq> startCenter) centersNeeded \<noteq> []"
  shows "findOptimalRoute D startCenter centersNeeded =
     (let (minCost, bestRoute) =
            fold (keep_min D)
                 (tried_routes startCenter
                    (filter (\<lambda>center. center \<noteq> startCenter) centersNeeded))
                 (PosInf, None)
      in \<lparr>route = bestRoute, cost = minCost\<rparr>)"
  using assms unfolding findOptimalRoute_def tried_routes_def optimizer_loops[symmetric]
  by (simp add: Let_def)

lemma cost_findOptimalRoute_tried:
  assumes "filter (\<lambda>center. center \<noteq> startCenter) centersNeeded \<noteq> []"
  shows "cost (findOptimalRoute D startCenter centersNeeded) =
     fst (fold (keep_min D)
               (tried_routes startCenter
                  (filter (\<lambda>center. center \<noteq> startCenter) centersNeeded))
               (PosInf, None))"
  unfolding findOptimalRoute_tried[OF assms] by (simp add: split_beta)



section \<open>The minimum over the start centers\<close>

lemma fold_Math_min_bounds:
  "m \<noteq> NaN \<Longrightarrow> \<forall>s\<in>set ss. g s \<noteq> NaN \<Longrightarrow>
   (let c = fold (\<lambda>s minCost. Math_min minCost (g s)) ss m in
      c \<noteq> NaN \<and> js_le c m \<and> (c = m \<or> c \<in> g ` set ss) \<and> (\<forall>s\<in>set ss. js_le c (g s)))"
proof (induction ss arbitrary: m)
  case Nil
  then show ?case by (simp add: js_le_refl)
next
  case (Cons s ss)
  have gs: "g s \<noteq> NaN" and rest: "\<forall>s\<in>set ss. g s \<noteq> NaN" using Cons.prems(2) by auto
  show ?case
  proof (cases "js_lt (g s) m")
    case True
    then have k: "Math_min m (g s) = g s" using Cons.prems(1) gs by (simp add: Math_min_def)
    from Cons.IH[OF gs rest] show ?thesis
      using js_lt_imp_le[OF True] by (auto simp: k Let_def intro: js_le_trans)
  next
    case False
    then have k: "Math_min m (g s) = m" using Cons.prems(1) gs by (simp add: Math_min_def)
    from Cons.IH[OF Cons.prems(1) rest] show ?thesis
      using js_not_lt_le[OF False gs Cons.prems(1)]
      by (auto simp: k Let_def intro: js_le_trans)
  qed
qed

lemma fold_Math_min_minimum:
  assumes "ss \<noteq> []" and "\<forall>s\<in>set ss. g s \<noteq> NaN"
  shows "is_minimum (fold (\<lambda>s minCost. Math_min minCost (g s)) ss PosInf) (g ` set ss)"
proof -
  let ?c = "fold (\<lambda>s minCost. Math_min minCost (g s)) ss PosInf"
  have b: "?c = PosInf \<or> ?c \<in> g ` set ss" "\<forall>s\<in>set ss. js_le ?c (g s)"
    using fold_Math_min_bounds[of PosInf ss g] assms(2) by (simp_all add: Let_def)
  have "?c \<in> g ` set ss"
  proof (cases "?c = PosInf")
    case True
    obtain s where s: "s \<in> set ss" using assms(1) by (cases ss) auto
    have "js_le PosInf (g s)" using b(2) s True by auto
    then have "g s = PosInf" by (cases "g s") simp_all
    then show ?thesis using s True by force
  next
    case False
    then show ?thesis using b(1) by simp
  qed
  then show ?thesis using b(2) by (auto simp: is_minimum_def)
qed

lemma testCases_miss:
  "k \<notin> fst ` set testCases \<union> set Object_prototype \<Longrightarrow> get_prop testCases k = None"
proof -
  assume a: "k \<notin> fst ` set testCases \<union> set Object_prototype"
  then have "map_of testCases k = None" by (simp add: map_of_eq_None_iff)
  then show ?thesis using a by (simp add: get_prop_def)
qed

lemma centersNeeded_filterOrder:
  "centersNeeded_of parse order \<noteq> [] \<Longrightarrow> filterOrder parse order \<noteq> []"
  by (auto simp: centersNeeded_of_def findCentersNeeded_def)




section \<open>Orders served by center C1 alone\<close>










section \<open>Adding a product of a center already needed\<close>

lemma catalog_key:
  "map_of getProductCenterMap k = Some c \<Longrightarrow> length k = 1 \<and> c \<noteq> []"
  by (auto simp: getProductCenterMap_eq split: if_splits)

lemma get_prop_catalog:
  "map_of getProductCenterMap k = Some c \<Longrightarrow> get_prop getProductCenterMap k = Some (Prim c)"
  by (simp add: get_prop_def)

lemma resolves_Prim:
  "resolves getProductCenterMap k (Prim c) \<Longrightarrow> map_of getProductCenterMap k = Some c"
  by (auto simp: resolves_def get_prop_def split: option.splits if_splits)

lemma join_comma: "2 \<le> length xs \<Longrightarrow> CHR '','' \<in> set (join '','' xs)"
proof (cases xs)
  case Nil
  assume "2 \<le> length xs"
  then show ?thesis using Nil by simp
next
  case (Cons x ys)
  assume "2 \<le> length xs"
  then obtain y zs where "ys = y # zs" using Cons by (cases ys) auto
  then show ?thesis using Cons by simp
qed

lemma inherited_name:
  "n \<in> set Object_prototype \<Longrightarrow> CHR '','' \<notin> set n \<and> length n \<noteq> 1"
  by (auto simp: Object_prototype_def)

lemma join_not_inherited:
  assumes "k \<in> set ks" and "length k = 1"
  shows "join '','' ks \<notin> set Object_prototype"
proof (cases "2 \<le> length ks")
  case True
  then show ?thesis using join_comma inherited_name by blast
next
  case False
  then have "length ks \<le> 1" by simp
  then have "ks = [k]" using assms(1) by (cases ks) auto
  then show ?thesis using assms(2) inherited_name by auto
qed

lemma orderProducts_not_inherited:
  assumes "k \<in> valid_keys parse order" and "length k = 1"
  shows "orderProducts parse order \<notin> set Object_prototype"
proof -
  have "k \<noteq> ''__proto__''" using assms(2) by auto
  then have "k \<in> set (sort (Object_keys (filterOrder parse order)))"
    using assms(1) by (simp add: keys_filterOrder)
  then show ?thesis
    unfolding orderProducts_def by (rule join_not_inherited) (rule assms(2))
qed

lemma valid_keys_snoc:
  "valid_keys parse (order @ [(p, q)]) =
     valid_keys parse order \<union> (if valid_entry parse q then {p} else {})"
  by (auto simp: valid_keys_def)

lemma valid_keys_subset: "valid_keys parse order \<subseteq> fst ` set order"
  by (auto simp: valid_keys_def)

lemma filterOrder_add:
  assumes "p \<notin> fst ` set order" and "valid_entry parse q" and "p \<noteq> ''__proto__''"
  shows "filterOrder parse (order @ [(p, q)]) = filterOrder parse order @ [(p, Number parse q)]"
proof -
  have "fst ` set (filterOrder parse order) \<subseteq> fst ` set order"
    using keys_filterOrder[of parse order] valid_keys_subset[of parse order]
    by (auto simp: Object_keys_def)
  then have "p \<notin> fst ` set (filterOrder parse order)" using assms(1) by blast
  then show ?thesis
    using assms(2,3) by (simp add: filterOrder_snoc filter_step_def obj_put_def own_put_fresh)
qed

lemma findCentersNeeded_snoc:
  "findCentersNeeded (order @ [e]) pcm = centers_step pcm e (findCentersNeeded order pcm)"
  by (simp add: findCentersNeeded_fold)

lemma hardcoded_miss:
  assumes "orderProducts parse order \<notin> fst ` set testCases"
    and "k \<in> valid_keys parse order" and "length k = 1"
  shows "get_prop testCases (orderProducts parse order) = None"
  using testCases_miss[of "orderProducts parse order"] assms(1)
    orderProducts_not_inherited[OF assms(2,3)]
  by simp

text \<open>
  Claim C3, as the code has it. Let an order get one more entry, for a product it does not
  mention yet, stocked by a center the order already needs, with a valid quantity. The
  centers needed stay as they were. The cost returned by \<open>calculateMinDeliveryCost\<close> of
  \<open>src/index.js\<close> stays as it was when neither the old nor the new text that the code
  looks up, the sorted valid product keys joined by commas, is a key of \<open>testCases\<close>.
  The text decides, not the list of keys: the keys A and "B,C" join to the text A,B,C.
\<close>

theorem add_product_of_needed_center:
  assumes "p \<notin> fst ` set order"
    and "valid_entry parse q"
    and "map_of getProductCenterMap p = Some c"
    and "Prim c \<in> set (centersNeeded_of parse order)"
  shows "centersNeeded_of parse (order @ [(p, q)]) = centersNeeded_of parse order \<and>
     (orderProducts parse order \<notin> fst ` set testCases \<and>
      orderProducts parse (order @ [(p, q)]) \<notin> fst ` set testCases
        \<longrightarrow> calculateMinDeliveryCost parse (order @ [(p, q)])
              = calculateMinDeliveryCost parse order)"
proof (intro conjI impI)
  let ?o' = "order @ [(p, q)]"
  have len: "length p = 1" and c: "c \<noteq> []" using catalog_key[OF assms(3)] by simp_all
  then have np: "p \<noteq> ''__proto__''" by auto
  have gt: "js_gt (Number parse q) (Fin 0)" using assms(2) by (simp add: valid_entry_def)
  have fo: "filterOrder parse ?o' = filterOrder parse order @ [(p, Number parse q)]"
    by (rule filterOrder_add[OF assms(1,2) np])
  show cn: "centersNeeded_of parse ?o' = centersNeeded_of parse order"
    unfolding centersNeeded_of_def fo findCentersNeeded_snoc
    using assms(4) gt c get_prop_catalog[OF assms(3)]
    by (simp add: centers_step_def Set_add_def centersNeeded_of_def)
  assume gate: "orderProducts parse order \<notin> fst ` set testCases \<and>
      orderProducts parse ?o' \<notin> fst ` set testCases"
  have ne: "centersNeeded_of parse order \<noteq> []" using assms(4) by auto
  obtain k where k: "k \<in> valid_keys parse order" "resolves getProductCenterMap k (Prim c)"
    using assms(4) unfolding set_centersNeeded_of by blast
  have klen: "length k = 1" using catalog_key[OF resolves_Prim[OF k(2)]] by simp
  have m: "get_prop testCases (orderProducts parse order) = None"
    by (rule hardcoded_miss[OF conjunct1[OF gate] k(1) klen])
  have "p \<in> valid_keys parse ?o'" using assms(2) by (simp add: valid_keys_snoc)
  then have m': "get_prop testCases (orderProducts parse ?o') = None"
    by (rule hardcoded_miss[OF conjunct2[OF gate] _ len])
  show "calculateMinDeliveryCost parse ?o' = calculateMinDeliveryCost parse order"
    unfolding calculateMinDeliveryCost_steps cn m m'
    using ne centersNeeded_filterOrder[OF ne] centersNeeded_filterOrder[of parse ?o']
    by (simp add: cn)
qed

theorem add_product_of_needed_center_witness:
  "''H'' \<notin> fst ` set [(''G'', JNum (Fin 2)), (''D'', JNum (Fin 1))] \<and>
   valid_entry parse_decimal (JStr ''4'') \<and>
   map_of getProductCenterMap ''H'' = Some ''C3'' \<and>
   centersNeeded_of parse_decimal [(''G'', JNum (Fin 2)), (''D'', JNum (Fin 1))]
     = [Prim ''C3'', Prim ''C2''] \<and>
   centersNeeded_of parse_decimal
       ([(''G'', JNum (Fin 2)), (''D'', JNum (Fin 1))] @ [(''H'', JStr ''4'')])
     = [Prim ''C3'', Prim ''C2''] \<and>
   calculateMinDeliveryCost parse_decimal [(''G'', JNum (Fin 2)), (''D'', JNum (Fin 1))]
     = Prim (Fin 114) \<and>
   calculateMinDeliveryCost parse_decimal
       ([(''G'', JNum (Fin 2)), (''D'', JNum (Fin 1))] @ [(''H'', JStr ''4'')])
     = Prim (Fin 114)"
proof -
  let ?o = "[(''G'', JNum (Fin 2)), (''D'', JNum (Fin 1))]"
  have h1: "''H'' \<notin> fst ` set ?o" by simp
  have h2: "valid_entry parse_decimal (JStr ''4'')"
    by (simp add: valid_entry_def parse_decimal_def js_gt_def isNaN_def)
  have h3: "map_of getProductCenterMap ''H'' = Some ''C3''"
    by (simp add: getProductCenterMap_eq)
  have cn: "centersNeeded_of parse_decimal ?o = [Prim ''C3'', Prim ''C2'']" by code_simp
  have h4: "Prim ''C3'' \<in> set (centersNeeded_of parse_decimal ?o)" by (simp add: cn)
  have "orderProducts parse_decimal ?o = ''D,G''" by code_simp
  then have h5: "orderProducts parse_decimal ?o \<notin> fst ` set testCases"
    by (simp add: testCases_def)
  have "orderProducts parse_decimal (?o @ [(''H'', JStr ''4'')]) = ''D,G,H''" by code_simp
  then have h6: "orderProducts parse_decimal (?o @ [(''H'', JStr ''4'')]) \<notin> fst ` set testCases"
    by (simp add: testCases_def)
  have v: "calculateMinDeliveryCost parse_decimal ?o = Prim (Fin 114)" by code_simp
  show ?thesis
    using add_product_of_needed_center[OF h1 h2 h3 h4] h1 h2 h3 h5 h6 cn v by simp
qed

text \<open>Claim C3 as stated, at the order \<open>{"A": 1, "B": 1}\<close> and the added entry \<open>"C": 1\<close>:
  center C1 is needed before and after, and the cost goes from 39 to 78.\<close>

theorem add_C_changes_cost:
  "centersNeeded_of parse_decimal [(''A'', JNum (Fin 1)), (''B'', JNum (Fin 1))]
     = [Prim ''C1''] \<and>
   centersNeeded_of parse_decimal
     [(''A'', JNum (Fin 1)), (''B'', JNum (Fin 1)), (''C'', JNum (Fin 1))] = [Prim ''C1''] \<and>
   calculateMinDeliveryCost parse_decimal [(''A'', JNum (Fin 1)), (''B'', JNum (Fin 1))]
     = Prim (Fin 39) \<and>
   calculateMinDeliveryCost parse_decimal
     [(''A'', JNum (Fin 1)), (''B'', JNum (Fin 1)), (''C'', JNum (Fin 1))] = Prim (Fin 78)"
  by (intro conjI; code_simp)

text \<open>The lookup is by the joined text: with the keys A and "B,C" the text is A,B,C and
  the answer 78; one more entry B for the same center makes the text A,B,B,C and the
  answer 39.\<close>

lemma joined_text_decides:
  "orderProducts parse_decimal [(''A'', JNum (Fin 1)), (''B,C'', JNum (Fin 1))] = ''A,B,C'' \<and>
   calculateMinDeliveryCost parse_decimal [(''A'', JNum (Fin 1)), (''B,C'', JNum (Fin 1))]
     = Prim (Fin 78) \<and>
   calculateMinDeliveryCost parse_decimal
     [(''A'', JNum (Fin 1)), (''B,C'', JNum (Fin 1)), (''B'', JNum (Fin 1))] = Prim (Fin 39)"
  by (intro conjI; code_simp)

section \<open>The bit operators on the masks of the optimizer\<close>

lemma shl32_one:
  assumes "n < 31"
  shows "shl32 1 n = 2 ^ n"
proof -
  have b: "(2::int) ^ n < 2 ^ 31"
    by (rule power_strict_increasing) (use assms in simp_all)
  have "- (2 ^ 31) \<le> (2::int) ^ n" by (rule order_trans[of _ 0]) simp_all
  then have s: "signed_take_bit 31 ((2::int) ^ n) = 2 ^ n"
    using b by (rule signed_take_bit_int_eq_self)
  have "push_bit n (word_of_int 1 :: 32 word) = word_of_int (2 ^ n)"
    by (simp add: push_bit_eq_mult)
  then have "sint (push_bit n (word_of_int 1 :: 32 word)) = signed_take_bit 31 (2 ^ n)"
    by (simp only: sint_sbintrunc') simp
  then show ?thesis using assms s by (simp add: shl32_def)
qed

lemma nat_shl32_one: "n < 31 \<Longrightarrow> nat (shl32 1 n) = 2 ^ n"
  by (simp add: shl32_one nat_power_eq)

lemma word_and_one_test: "(w AND 1 \<noteq> 0) = bit w 0" for w :: "32 word"
  by (simp add: and_one_eq bit_0 mod_2_eq_odd)

lemma mask_bit_test:
  assumes "i < 32"
  shows "(and32 (sar32 (int m) i) 1 \<noteq> 0) = bit m i"
proof -
  let ?w = "word_of_int (int m) :: 32 word"
  have "and32 (sar32 (int m) i) 1 = sint (signed_drop_bit i ?w AND 1)"
    using assms by (simp add: and32_def sar32_def)
  then have "(and32 (sar32 (int m) i) 1 \<noteq> 0) = bit (signed_drop_bit i ?w) 0"
    by (simp add: signed_eq_0_iff word_and_one_test del: of_nat_eq_0_iff)
  also have "\<dots> = bit ?w i"
    using assms by (simp add: bit_signed_drop_bit_iff)
  also have "\<dots> = bit m i"
    using assms by (simp add: bit_simps)
  finally show ?thesis .
qed

section \<open>The routes the optimizer tries\<close>

lemma fold_push:
  "fold (\<lambda>i r. r @ f i) xs acc = acc @ concat (map f xs)"
  by (induction xs arbitrary: acc) simp_all

lemma buildRoute_candidate:
  assumes "length perm \<le> 32"
  shows "buildRoute startCenter perm msk = candidate_route startCenter perm msk"
proof -
  let ?n = "length perm"
  let ?f = "\<lambda>i. (if bit msk i then [L1] else []) @ [perm ! i]"
  have "fold (\<lambda>i r. (if and32 (sar32 (int msk) i) 1 \<noteq> 0 then r @ [L1] else r) @ [perm ! i])
          [0 ..< ?n] [startCenter] =
        fold (\<lambda>i r. r @ ?f i) [0 ..< ?n] [startCenter]"
  proof (rule fold_cong[OF refl refl])
    fix i assume "i \<in> set [0 ..< ?n]"
    then have "i < 32" using assms by simp
    then show "(\<lambda>r. (if and32 (sar32 (int msk) i) 1 \<noteq> 0 then r @ [L1] else r) @ [perm ! i]) =
        (\<lambda>r. r @ ?f i)"
      by (simp add: mask_bit_test fun_eq_iff)
  qed
  also have "\<dots> = startCenter # concat (map ?f [0 ..< ?n])"
    by (simp add: fold_push)
  finally show ?thesis by (simp add: buildRoute_def candidate_route_def Let_def)
qed

lemma mset_remove_nth:
  "i < length xs \<Longrightarrow> add_mset (xs ! i) (mset (take i xs @ drop (Suc i) xs)) = mset xs"
proof -
  assume "i < length xs"
  then have "xs = take i xs @ xs ! i # drop (Suc i) xs" by (rule id_take_nth_drop)
  then have "mset xs = mset (take i xs @ xs ! i # drop (Suc i) xs)" by simp
  then show ?thesis by simp
qed

lemma set_getPermutations: "set (getPermutations xs) = {p. mset p = mset xs}"
proof (induction xs rule: getPermutations.induct)
  case (1 arr)
  show ?case
  proof (cases "length arr \<le> 1")
    case True
    then have "arr = [] \<or> (\<exists>x. arr = [x])" by (cases arr) (auto simp: Suc_le_eq)
    then have "{p. mset p = mset arr} = {arr}" by auto
    moreover have "set (getPermutations arr) = {arr}"
      using True by (subst getPermutations.simps) simp
    ultimately show ?thesis by simp
  next
    case False
    let ?rest = "\<lambda>i. take i arr @ drop (Suc i) arr"
    have IH: "\<And>i. i < length arr \<Longrightarrow> set (getPermutations (?rest i)) = {p. mset p = mset (?rest i)}"
      using "1.IH"[OF False] by simp
    have eq: "set (getPermutations arr) =
        (\<Union>i\<in>{0 ..< length arr}. (\<lambda>perm. arr ! i # perm) ` set (getPermutations (?rest i)))"
      using False by (subst getPermutations.simps) simp
    show ?thesis
    proof (rule set_eqI, rule iffI)
      fix p assume "p \<in> set (getPermutations arr)"
      then obtain i q where i: "i < length arr" and q: "q \<in> set (getPermutations (?rest i))"
        and p: "p = arr ! i # q"
        unfolding eq by auto
      have "mset q = mset (?rest i)" using IH[OF i] q by simp
      then have "mset p = mset arr" using mset_remove_nth[OF i] p by simp
      then show "p \<in> {p. mset p = mset arr}" by simp
    next
      fix p assume "p \<in> {p. mset p = mset arr}"
      then have m: "mset p = mset arr" by simp
      then have "length p = length arr" by (rule mset_eq_length)
      then obtain y q where p: "p = y # q" using False by (cases p) auto
      have "y \<in> set arr" using m p mset_eq_setD[OF m] by auto
      then obtain i where i: "i < length arr" and y: "arr ! i = y"
        by (auto simp: in_set_conv_nth)
      have "add_mset y (mset q) = add_mset y (mset (?rest i))"
        using m p mset_remove_nth[OF i] y by simp
      then have "mset q = mset (?rest i)" by simp
      then have "q \<in> set (getPermutations (?rest i))" using IH[OF i] by simp
      then show "p \<in> set (getPermutations arr)"
        unfolding eq using i y p by auto
    qed
  qed
qed

lemma permutations_of_distinct:
  assumes "distinct xs"
  shows "{p. mset p = mset xs} = {p. set p = set xs \<and> distinct p}"
proof (rule set_eqI, rule iffI)
  fix p assume "p \<in> {p. mset p = mset xs}"
  then have m: "mset p = mset xs" by simp
  have "set p = set xs" using m by (rule mset_eq_setD)
  moreover have "distinct p" using mset_eq_imp_distinct_iff[OF m] assms by simp
  ultimately show "p \<in> {p. set p = set xs \<and> distinct p}" by simp
next
  fix p assume "p \<in> {p. set p = set xs \<and> distinct p}"
  then have "set p = set xs" and "distinct p" by simp_all
  then have "mset p = mset xs" using assms set_eq_iff_mset_eq_distinct by blast
  then show "p \<in> {p. mset p = mset xs}" by simp
qed

lemma in_tried_routes:
  "r \<in> set (tried_routes s tv) \<longleftrightarrow>
     (\<exists>p\<in>set (getPermutations tv). \<exists>m<nat (shl32 1 (length p)). r = buildRoute s p m)"
proof -
  have "r \<in> set (tried_routes s tv) \<longleftrightarrow>
      (\<exists>p\<in>set (getPermutations tv). r \<in> buildRoute s p ` {0 ..< nat (shl32 1 (length p))})"
    by (simp add: tried_routes_def)
  also have "\<dots> \<longleftrightarrow>
      (\<exists>p\<in>set (getPermutations tv). \<exists>m<nat (shl32 1 (length p)). r = buildRoute s p m)"
    by (simp add: image_iff Bex_def)
  finally show ?thesis .
qed

lemma set_tried_routes:
  assumes "distinct tv" and "length tv < 31"
  shows "set (tried_routes s tv) =
     {candidate_route s p m | p m. set p = set tv \<and> distinct p \<and> m < 2 ^ length tv}"
proof (rule set_eqI, rule iffI)
  fix r assume "r \<in> set (tried_routes s tv)"
  then obtain p m where p: "p \<in> set (getPermutations tv)"
    and m: "m < nat (shl32 1 (length p))" and r: "r = buildRoute s p m"
    unfolding in_tried_routes by blast
  have mp: "mset p = mset tv" using p by (simp add: set_getPermutations)
  then have l: "length p = length tv" by (rule mset_eq_length)
  have "p \<in> {p. set p = set tv \<and> distinct p}"
    using mp permutations_of_distinct[OF assms(1)] by blast
  moreover have "m < 2 ^ length tv" using m l assms(2) by (simp add: nat_shl32_one)
  moreover have "r = candidate_route s p m"
    unfolding r by (rule buildRoute_candidate) (use l assms(2) in simp)
  ultimately show "r \<in> {candidate_route s p m | p m.
      set p = set tv \<and> distinct p \<and> m < 2 ^ length tv}" by blast
next
  fix r assume "r \<in> {candidate_route s p m | p m.
      set p = set tv \<and> distinct p \<and> m < 2 ^ length tv}"
  then obtain p m where sp: "set p = set tv" "distinct p" and m: "m < 2 ^ length tv"
    and r: "r = candidate_route s p m" by blast
  have "p \<in> {p. mset p = mset tv}"
    using sp permutations_of_distinct[OF assms(1)] by blast
  then have mp: "mset p = mset tv" by simp
  then have l: "length p = length tv" by (rule mset_eq_length)
  have p: "p \<in> set (getPermutations tv)" using mp by (simp add: set_getPermutations)
  have m': "m < nat (shl32 1 (length p))"
    using m l assms(2) by (simp add: nat_shl32_one)
  have "r = buildRoute s p m"
    unfolding r by (rule buildRoute_candidate[symmetric]) (use l assms(2) in simp)
  then show "r \<in> set (tried_routes s tv)"
    unfolding in_tried_routes using p m' by blast
qed

lemma tried_routes_nonempty:
  assumes "distinct tv" and "length tv < 31"
  shows "tried_routes s tv \<noteq> []"
proof -
  have "candidate_route s tv 0 \<in> set (tried_routes s tv)"
    unfolding set_tried_routes[OF assms] using assms(1) by force
  then show ?thesis by auto
qed

section \<open>The optimizer returns the minimum over the candidate routes\<close>

lemma plain_stop_pair: "plain_stop a \<Longrightarrow> \<not> inherited_pair a b"
proof (cases a)
  case (Prim s)
  assume "plain_stop a"
  then have "s = ''C1'' \<or> s = ''C2'' \<or> s = ''C3'' \<or> s = ''L1''" using Prim by simp
  then show ?thesis
    using Prim by (auto simp: inherited_pair_def Object_prototype_def)
next
  case (Builtin p)
  then show ?thesis by (simp add: inherited_pair_def Object_prototype_def)
qed

lemma plain_stop_L1: "plain_stop L1"
  by (simp add: L1_def)

lemma plain_stop_centers: "c \<in> set centers \<Longrightarrow> plain_stop c"
  by (auto simp: centers_def)

lemma set_candidate_route:
  "set (candidate_route s p m) \<subseteq> insert s (insert L1 (set p))"
  by (auto simp: candidate_route_def Let_def split: if_splits)

lemma plain_route_cost:
  assumes "positive_table D" and "\<forall>x\<in>set r. plain_stop x"
  shows "calculateRouteCost D r = pair_sum_cost D r"
proof (rule calculateRouteCost_eq_pair_sum[OF assms(1)], intro allI impI)
  fix i assume "i + 1 < length r"
  then have "r ! i \<in> set r" by simp
  then show "\<not> inherited_pair (r ! i) (r ! (i + 1))"
    using assms(2) plain_stop_pair by blast
qed

lemma candidate_cost_nonneg:
  assumes "positive_table D" and "plain_stop s" and "\<forall>x\<in>set p. plain_stop x"
  shows "nonneg (calculateRouteCost D (candidate_route s p m))"
proof -
  have "\<forall>x\<in>set (candidate_route s p m). plain_stop x"
    using set_candidate_route[of s p m] assms(2,3) plain_stop_L1 by auto
  then show ?thesis
    using plain_route_cost[OF assms(1)] nonneg_pair_sum_cost[OF assms(1)] by simp
qed

lemma optimizer_minimum_plain:
  assumes D: "positive_table D" and d: "distinct centersNeeded"
    and s: "plain_stop startCenter" and c: "\<forall>x\<in>set centersNeeded. plain_stop x"
    and ne: "filter (\<lambda>center. center \<noteq> startCenter) centersNeeded \<noteq> []"
    and len: "length (filter (\<lambda>center. center \<noteq> startCenter) centersNeeded) < 31"
  shows "is_minimum (cost (findOptimalRoute D startCenter centersNeeded))
     (candidate_costs D startCenter
        (filter (\<lambda>center. center \<noteq> startCenter) centersNeeded))"
proof -
  let ?tv = "filter (\<lambda>center. center \<noteq> startCenter) centersNeeded"
  let ?rs = "tried_routes startCenter ?tv"
  have dtv: "distinct ?tv" using d by simp
  have rs: "set ?rs = {candidate_route startCenter p m | p m.
      set p = set ?tv \<and> distinct p \<and> m < 2 ^ length ?tv}"
    by (rule set_tried_routes[OF dtv len])
  have nn: "\<forall>r\<in>set ?rs. calculateRouteCost D r \<noteq> NaN"
  proof
    fix r assume "r \<in> set ?rs"
    then obtain p m where p: "set p = set ?tv" and r: "r = candidate_route startCenter p m"
      unfolding rs by blast
    have "\<forall>x\<in>set p. plain_stop x" using p c by auto
    then show "calculateRouteCost D r \<noteq> NaN"
      unfolding r using candidate_cost_nonneg[OF D s] nonneg_not_NaN by blast
  qed
  have "is_minimum (fst (fold (keep_min D) ?rs (PosInf, None))) (calculateRouteCost D ` set ?rs)"
    by (rule fold_keep_min_minimum[OF tried_routes_nonempty[OF dtv len] nn])
  moreover have "calculateRouteCost D ` set ?rs = candidate_costs D startCenter ?tv"
    unfolding rs candidate_costs_def by blast
  ultimately show ?thesis
    unfolding cost_findOptimalRoute_tried[OF ne] by simp
qed

lemma distinct_length_le:
  assumes "distinct xs" and "set xs \<subseteq> set ys"
  shows "length xs \<le> length ys"
proof -
  have "length xs = card (set xs)" using assms(1) by (simp add: distinct_card)
  also have "\<dots> \<le> card (set ys)" using assms(2) by (simp add: card_mono)
  also have "\<dots> \<le> length ys" by (rule card_length)
  finally show ?thesis .
qed

text \<open>
  Claim C1. For a start among the centers C1, C2, C3 and a set of centers needed that leaves
  some center to visit once the start is taken out, the cost that \<open>findOptimalRoute\<close>
  returns is the minimum of the costs of the candidate routes: one for every ordering of
  the centers to visit and every mask below \<open>2 ^ n\<close>, built as the start, then each center
  in order with the hub in front of it when its mask bit is set, and the hub at the end
  unless the route ends there already. This holds for any table of positive finite
  distances, so for both entry points.
\<close>

theorem findOptimalRoute_minimum:
  assumes "positive_table D"
    and "startCenter \<in> set centers"
    and "set centersNeeded \<subseteq> set centers"
    and "distinct centersNeeded"
    and "filter (\<lambda>center. center \<noteq> startCenter) centersNeeded \<noteq> []"
  shows "is_minimum (cost (findOptimalRoute D startCenter centersNeeded))
     (candidate_costs D startCenter
        (filter (\<lambda>center. center \<noteq> startCenter) centersNeeded))"
proof -
  have "length centersNeeded \<le> length centers"
    by (rule distinct_length_le[OF assms(4,3)])
  moreover have "length (filter (\<lambda>center. center \<noteq> startCenter) centersNeeded)
      \<le> length centersNeeded" by (rule length_filter_le)
  moreover have "length centers = 3" by (simp add: centers_def)
  ultimately have len: "length (filter (\<lambda>center. center \<noteq> startCenter) centersNeeded) < 31"
    by linarith
  have c: "\<forall>x\<in>set centersNeeded. plain_stop x"
    using assms(3) plain_stop_centers by blast
  show ?thesis
    by (rule optimizer_minimum_plain[OF assms(1,4) plain_stop_centers[OF assms(2)] c
          assms(5) len])
qed

theorem findOptimalRoute_minimum_witness:
  "positive_table DISTANCES \<and>
   Prim ''C1'' \<in> set centers \<and>
   set [Prim ''C1'', Prim ''C3'', Prim ''C2''] \<subseteq> set centers \<and>
   distinct [Prim ''C1'', Prim ''C3'', Prim ''C2''] \<and>
   filter (\<lambda>center. center \<noteq> Prim ''C1'') [Prim ''C1'', Prim ''C3'', Prim ''C2'']
     = [Prim ''C3'', Prim ''C2''] \<and>
   cost (findOptimalRoute DISTANCES (Prim ''C1'') [Prim ''C1'', Prim ''C3'', Prim ''C2''])
     = Fin 204 \<and>
   is_minimum (Fin 204) (candidate_costs DISTANCES (Prim ''C1'') [Prim ''C3'', Prim ''C2''])"
proof -
  let ?cs = "[Prim ''C1'', Prim ''C3'', Prim ''C2'']"
  have h2: "Prim ''C1'' \<in> set centers" by (simp add: centers_def)
  have h3: "set ?cs \<subseteq> set centers" by (simp add: centers_def)
  have h4: "distinct ?cs" by simp
  have f: "filter (\<lambda>center. center \<noteq> Prim ''C1'') ?cs = [Prim ''C3'', Prim ''C2'']" by simp
  have h5: "filter (\<lambda>center. center \<noteq> Prim ''C1'') ?cs \<noteq> []" by simp
  have v: "cost (findOptimalRoute DISTANCES (Prim ''C1'') ?cs) = Fin 204" by code_simp
  show ?thesis
    using findOptimalRoute_minimum[OF positive_DISTANCES h2 h3 h4 h5] positive_DISTANCES
      h2 h3 h4 f v
    by simp
qed

section \<open>The result depends on the valid keys only\<close>

lemma candidate_costs_cong:
  "set tv = set tv' \<Longrightarrow> length tv = length tv' \<Longrightarrow>
   candidate_costs D s tv = candidate_costs D s tv'"
  by (simp add: candidate_costs_def)

lemma cost_findOptimalRoute_set:
  assumes D: "positive_table D" and d: "distinct cs" and d': "distinct cs'"
    and eq: "set cs = set cs'" and s: "plain_stop s" and c: "\<forall>x\<in>set cs. plain_stop x"
    and len: "length cs < 31"
  shows "cost (findOptimalRoute D s cs) = cost (findOptimalRoute D s cs')"
proof -
  let ?tv = "filter (\<lambda>center. center \<noteq> s) cs"
  let ?tv' = "filter (\<lambda>center. center \<noteq> s) cs'"
  have st: "set ?tv = set ?tv'" using eq by simp
  have "distinct ?tv" using d by simp
  then have "card (set ?tv) = length ?tv" by (rule distinct_card)
  moreover have "distinct ?tv'" using d' by simp
  then have "card (set ?tv') = length ?tv'" by (rule distinct_card)
  ultimately have lt: "length ?tv = length ?tv'" using st by (simp only:)
  show ?thesis
  proof (cases "?tv = []")
    case True
    then have "?tv' = []" using lt by simp
    then show ?thesis using True eq by (simp add: findOptimalRoute_def)
  next
    case False
    then have ne': "?tv' \<noteq> []" using lt by auto
    have l: "length ?tv < 31" using len length_filter_le[of _ cs] by (rule le_less_trans[rotated])
    have l': "length ?tv' < 31" using l lt by simp
    have c': "\<forall>x\<in>set cs'. plain_stop x" using c eq by simp
    have "is_minimum (cost (findOptimalRoute D s cs)) (candidate_costs D s ?tv)"
      by (rule optimizer_minimum_plain[OF D d s c False l])
    moreover have "is_minimum (cost (findOptimalRoute D s cs')) (candidate_costs D s ?tv')"
      by (rule optimizer_minimum_plain[OF D d' s c' ne' l'])
    ultimately show ?thesis
      unfolding candidate_costs_cong[OF st lt] by (rule is_minimum_unique)
  qed
qed

lemma resolved_stop:
  assumes "resolves getProductCenterMap k x"
  shows "x \<in> set (centers @ map Builtin Object_prototype)"
proof (cases x)
  case (Prim c)
  then have "map_of getProductCenterMap k = Some c" using assms resolves_Prim by simp
  then have "c = ''C1'' \<or> c = ''C2'' \<or> c = ''C3''"
    by (auto simp: getProductCenterMap_eq split: if_splits)
  then show ?thesis using Prim by (auto simp: centers_def)
next
  case (Builtin p)
  then have "p \<in> set Object_prototype"
    using assms by (auto simp: resolves_def get_prop_def split: option.splits if_splits)
  then show ?thesis using Builtin by simp
qed

lemma centersNeeded_of_stops:
  "set (centersNeeded_of parse order) \<subseteq> set (centers @ map Builtin Object_prototype)"
  unfolding set_centersNeeded_of using resolved_stop by blast

lemma centersNeeded_of_plain:
  assumes "x \<in> set (centersNeeded_of parse order)"
  shows "plain_stop x"
proof (cases x)
  case (Prim c)
  then have "x \<in> set centers" using assms centersNeeded_of_stops[of parse order] by auto
  then show ?thesis by (rule plain_stop_centers)
next
  case (Builtin p)
  then show ?thesis by simp
qed

lemma centersNeeded_of_short: "length (centersNeeded_of parse order) < 31"
proof -
  have "length (centersNeeded_of parse order) \<le> length (centers @ map Builtin Object_prototype)"
    by (rule distinct_length_le[OF _ centersNeeded_of_stops])
       (simp add: centersNeeded_of_def distinct_findCentersNeeded)
  moreover have "length (centers @ map Builtin Object_prototype) = 15"
    by (simp add: centers_def Object_prototype_def)
  ultimately show ?thesis by linarith
qed



section \<open>The keys of a stringified object\<close>

lemma skip_no_quote: "CHR 0x22 \<notin> set s \<Longrightarrow> skip_text (s @ rest) = skip_text rest"
  by (induction s) auto

lemma hex_digit_plain:
  assumes "n < 16"
  shows "hex_digit n \<noteq> CHR 0x22 \<and> hex_digit n \<noteq> CHR 0x5C"
proof -
  have "hex_digit n \<in> set ''0123456789abcdef''"
    unfolding hex_digit_def by (rule nth_mem) (use assms in simp)
  then show ?thesis by auto
qed

lemma esc_cases:
  "esc c = [c] \<and> c \<noteq> CHR 0x22 \<and> c \<noteq> CHR 0x5C
   \<or> (\<exists>d. esc c = [CHR 0x5C, d])
   \<or> (\<exists>h l. esc c = [CHR 0x5C, CHR ''u'', CHR ''0'', CHR ''0'', h, l] \<and>
        h \<noteq> CHR 0x22 \<and> h \<noteq> CHR 0x5C \<and> l \<noteq> CHR 0x22 \<and> l \<noteq> CHR 0x5C)"
proof -
  have "(of_char c :: nat) < 256" by simp
  then have "(of_char c :: nat) div 16 < 16" by presburger
  moreover have "(of_char c :: nat) mod 16 < 16" by simp
  ultimately show ?thesis
    using hex_digit_plain by (simp add: esc_def)
qed

lemma read_esc: "read_name acc (esc c @ rest) = read_name (acc @ esc c) rest"
  using esc_cases[of c] by (elim disjE exE conjE) simp_all

lemma read_escaped:
  "read_name acc (concat (map esc k) @ rest) = read_name (acc @ concat (map esc k)) rest"
  by (induction k arbitrary: acc) (simp_all add: read_esc)

lemma skip_quote: "skip_text (quote k @ rest) = concat (map esc k) # skip_text rest"
  using read_escaped[of "[]" k "CHR 0x22 # rest"] by (simp add: quote_def)

lemma skip_member:
  assumes "quote_free num_text"
  shows "skip_text (json_member num_text (k, v) @ rest) = concat (map esc k) # skip_text rest"
proof -
  have "CHR 0x22 \<notin> set ('':'' @ json_number num_text v)"
    using assms by (cases v) (simp_all add: quote_free_def)
  then have "skip_text (('':'' @ json_number num_text v) @ rest) = skip_text rest"
    by (rule skip_no_quote)
  then show ?thesis
    using skip_quote[of k "'':'' @ json_number num_text v @ rest"]
    by (simp add: json_member_def)
qed

lemma skip_members:
  assumes "quote_free num_text"
  shows "skip_text (join '','' (map (json_member num_text) es) @ rest) =
     map (\<lambda>(k, v). concat (map esc k)) es @ skip_text rest"
proof (induction es rule: induct_list012)
  case 1
  then show ?case by simp
next
  case (2 e)
  then show ?case using skip_member[OF assms] by (cases e) simp
next
  case (3 e e' es)
  obtain k v where e: "e = (k, v)" by (cases e)
  have "skip_text (join '','' (map (json_member num_text) (e # e' # es)) @ rest) =
      skip_text (json_member num_text (k, v) @
                 ('','' @ join '','' (map (json_member num_text) (e' # es)) @ rest))"
    by (simp add: e)
  also have "\<dots> = concat (map esc k) #
      skip_text ('','' @ join '','' (map (json_member num_text) (e' # es)) @ rest)"
    by (rule skip_member[OF assms])
  also have "skip_text ('','' @ join '','' (map (json_member num_text) (e' # es)) @ rest) =
      skip_text (join '','' (map (json_member num_text) (e' # es)) @ rest)"
    by simp
  finally show ?case using "3.IH"(2) by (simp add: e)
qed

lemma skip_stringify:
  assumes "quote_free num_text"
  shows "skip_text (JSON_stringify num_text es) = map (\<lambda>(k, v). concat (map esc k)) es"
  using skip_members[OF assms, of es "''}''"] by (simp add: JSON_stringify_def)

lemma esc_nonempty: "esc c \<noteq> []"
  using esc_cases[of c] by auto

lemma escaped_letter:
  assumes "concat (map esc k) = [c]"
  shows "k = [c]"
proof (cases k)
  case Nil
  then show ?thesis using assms by simp
next
  case (Cons x xs)
  have "esc x @ concat (map esc xs) = [c]" using assms Cons by simp
  then have x: "esc x = [c]" and r: "concat (map esc xs) = []"
    using esc_nonempty[of x] by (auto simp: append_eq_Cons_conv)
  have "xs = []"
  proof (cases xs)
    case Nil
    then show ?thesis .
  next
    case (Cons y ys)
    then show ?thesis using r esc_nonempty[of y] by simp
  qed
  moreover have "x = c" using x esc_cases[of x] by auto
  ultimately show ?thesis using Cons by simp
qed

lemma stringify_keys:
  assumes "quote_free num_text"
    and "skip_text (JSON_stringify num_text es) = map (\<lambda>c. [c]) cs"
  shows "map fst es = map (\<lambda>c. [c]) cs"
proof -
  have m: "map (\<lambda>(k, v). concat (map esc k)) es = map (\<lambda>c. [c]) cs"
    using skip_stringify[OF assms(1), of es] assms(2) by simp
  then have "length es = length cs" using map_eq_imp_length_eq by blast
  moreover have "\<And>i. i < length es \<Longrightarrow> fst (es ! i) = [cs ! i]"
  proof -
    fix i assume i: "i < length es"
    then have "(map (\<lambda>(k, v). concat (map esc k)) es) ! i = concat (map esc (fst (es ! i)))"
      by (simp add: split_beta)
    moreover have "(map (\<lambda>c. [c]) cs) ! i = [cs ! i]"
      using i \<open>length es = length cs\<close> by simp
    ultimately have "concat (map esc (fst (es ! i))) = [cs ! i]" using m by simp
    then show "fst (es ! i) = [cs ! i]" by (rule escaped_letter)
  qed
  ultimately show ?thesis by (simp add: list_eq_iff_nth_eq)
qed

section \<open>The three lookups of the second entry point\<close>

lemma hardcoded_keys:
  assumes "(ks, v) \<in> set hardcoded"
  shows "sorted ks" and "distinct ks" and "''__proto__'' \<notin> set ks"
    and "hit productBasedCases (join '','' ks) = Some (Prim v)"
proof -
  have c: "(ks, v) = ([''A'', ''G'', ''H'', ''I''], Fin 86) \<or>
      (ks, v) = ([''A'', ''B'', ''C'', ''G'', ''H'', ''I''], Fin 118) \<or>
      (ks, v) = ([''A'', ''B'', ''C''], Fin 78) \<or>
      (ks, v) = ([''A'', ''B'', ''C'', ''D''], Fin 168)"
    using assms by (simp add: hardcoded_def)
  show "sorted ks" using c by (elim disjE) simp_all
  show "distinct ks" using c by (elim disjE) simp_all
  show "''__proto__'' \<notin> set ks" using c by (elim disjE) simp_all
  show "hit productBasedCases (join '','' ks) = Some (Prim v)"
    using c
    by (elim disjE) (simp_all add: hit_def get_prop_def productBasedCases_def truthy_num_def)
qed

lemma stringify_not_inherited: "JSON_stringify num_text es \<notin> set Object_prototype"
  by (simp add: JSON_stringify_def Object_prototype_def)

lemma testCases_2_texts:
  assumes "map_of testCases_2 key = Some v"
  shows "\<exists>ks. (ks, v) \<in> set hardcoded \<and> skip_text key = ks"
proof -
  have "key = fst (testCases_2 ! 0) \<and> v = Fin 86 \<or> key = fst (testCases_2 ! 1) \<and> v = Fin 118
      \<or> key = fst (testCases_2 ! 2) \<and> v = Fin 78 \<or> key = fst (testCases_2 ! 3) \<and> v = Fin 168"
    using assms by (simp add: testCases_2_def split: if_splits)
  then show ?thesis
    by (elim disjE conjE) (simp_all add: testCases_2_def dq_def hardcoded_def)
qed

lemma stringify_hit:
  assumes "quote_free num_text"
    and "hit testCases_2 (JSON_stringify num_text es) = Some x"
  shows "\<exists>ks v. (ks, v) \<in> set hardcoded \<and> map fst es = ks \<and> x = Prim v"
proof -
  let ?key = "JSON_stringify num_text es"
  have g: "get_prop testCases_2 ?key = Some x"
    using assms(2) by (simp add: hit_def split: if_splits)
  then obtain v where v: "map_of testCases_2 ?key = Some v" and x: "x = Prim v"
    using stringify_not_inherited[of num_text es]
    by (auto simp: get_prop_def split: option.splits)
  obtain ks where ks: "(ks, v) \<in> set hardcoded" and sk: "skip_text ?key = ks"
    using testCases_2_texts[OF v] by blast
  have "\<exists>cs. ks = map (\<lambda>c. [c]) cs"
  proof -
    have "ks = map (\<lambda>c. [c]) ''AGHI'' \<or> ks = map (\<lambda>c. [c]) ''ABCGHI'' \<or>
        ks = map (\<lambda>c. [c]) ''ABC'' \<or> ks = map (\<lambda>c. [c]) ''ABCD''"
      using ks by (auto simp: hardcoded_def)
    then show ?thesis by blast
  qed
  then obtain cs where cs: "ks = map (\<lambda>c. [c]) cs" by blast
  have "map fst es = ks"
    using stringify_keys[OF assms(1), of es cs] sk cs by simp
  then show ?thesis using ks x by blast
qed

lemma keys_Object_entries: "set (map fst (Object_entries obj)) = set (map fst obj)"
  by (auto simp: Object_entries_def)

lemma keys_sortedOrder_fold:
  "fst ` set (fold (\<lambda>key sortedOrder.
                     case map_of fo key of
                       Some v \<Rightarrow> obj_put sortedOrder key v
                     | None \<Rightarrow> sortedOrder) ks acc) =
     fst ` set acc \<union> {k \<in> set ks. k \<noteq> ''__proto__'' \<and> k \<in> fst ` set fo}"
proof (induction ks arbitrary: acc)
  case Nil
  then show ?case by simp
next
  case (Cons k ks)
  have step: "fst ` set (case map_of fo k of Some v \<Rightarrow> obj_put acc k v | None \<Rightarrow> acc) =
      fst ` set acc \<union> (if k \<noteq> ''__proto__'' \<and> k \<in> fst ` set fo then {k} else {})"
  proof (cases "map_of fo k")
    case None
    then have "k \<notin> fst ` set fo" by (simp add: map_of_eq_None_iff)
    then show ?thesis using None by simp
  next
    case (Some v)
    then have "k \<in> fst ` set fo" by (metis map_of_eq_None_iff option.distinct(1))
    then show ?thesis using Some by (simp add: obj_put_def keys_own_put)
  qed
  show ?case
    unfolding fold_simps Cons.IH step by auto
qed

lemma keys_sortedOrder:
  "set (map fst (sortedOrder_of fo)) = set (Object_keys fo) - {''__proto__''}"
  using keys_sortedOrder_fold[of fo "sort (Object_keys fo)" "[]"]
  by (auto simp: sortedOrder_of_def Object_keys_def)

lemma sorted_keys_from_set:
  assumes "set (Object_keys (filterOrder parse order)) = set ks"
    and "sorted ks" and "distinct ks"
  shows "sort (Object_keys (filterOrder parse order)) = ks"
proof (rule sorted_distinct_set_unique)
  show "sorted (sort (Object_keys (filterOrder parse order)))" by simp
  show "distinct (sort (Object_keys (filterOrder parse order)))"
    by (simp add: distinct_keys_filterOrder)
  show "sorted ks" by (rule assms(2))
  show "distinct ks" by (rule assms(3))
  show "set (sort (Object_keys (filterOrder parse order))) = set ks"
    using assms(1) by simp
qed

lemma first_lookup:
  assumes "quote_free num_text"
    and "hit testCases_2 (JSON_stringify num_text (filterOrder parse order)) = Some x"
  shows "hit productBasedCases (orderProducts parse order) = Some x"
proof -
  obtain ks v where ks: "(ks, v) \<in> set hardcoded"
    and m: "map fst (filterOrder parse order) = ks" and x: "x = Prim v"
    using stringify_hit[OF assms] by blast
  have "set (Object_keys (filterOrder parse order)) = set ks"
    using m by (simp add: Object_keys_def)
  then have "sort (Object_keys (filterOrder parse order)) = ks"
    using hardcoded_keys(1,2)[OF ks] by (rule sorted_keys_from_set)
  then show ?thesis
    using hardcoded_keys(4)[OF ks] x by (simp add: orderProducts_def)
qed

lemma second_lookup:
  assumes "quote_free num_text"
    and "hit testCases_2
           (JSON_stringify num_text (Object_entries (sortedOrder_of (filterOrder parse order))))
         = Some x"
  shows "hit productBasedCases (orderProducts parse order) = Some x"
proof -
  let ?fo = "filterOrder parse order"
  obtain ks v where ks: "(ks, v) \<in> set hardcoded"
    and m: "map fst (Object_entries (sortedOrder_of ?fo)) = ks" and x: "x = Prim v"
    using stringify_hit[OF assms] by blast
  have "set ks = set (map fst (sortedOrder_of ?fo))"
    using keys_Object_entries[of "sortedOrder_of ?fo"] m by simp
  also have "\<dots> = set (Object_keys ?fo) - {''__proto__''}" by (rule keys_sortedOrder)
  also have "\<dots> = set (Object_keys ?fo)" by (simp add: keys_filterOrder)
  finally have "set (Object_keys ?fo) = set ks" by simp
  then have "sort (Object_keys ?fo) = ks"
    using hardcoded_keys(1,2)[OF ks] by (rule sorted_keys_from_set)
  then show ?thesis
    using hardcoded_keys(4)[OF ks] x by (simp add: orderProducts_def)
qed

text \<open>With that, the two lookups by \<open>JSON.stringify\<close> never change the result: what they
  return, the lookup by product names returns as well.\<close>

lemma calculateMinDeliveryCost_2_steps:
  assumes "quote_free num_text"
  shows "calculateMinDeliveryCost_2 parse num_text order =
     (if filterOrder parse order = [] then Prim (Fin 0)
      else case hit productBasedCases (orderProducts parse order) of
             Some v \<Rightarrow> v
           | None \<Rightarrow>
               if centersNeeded_of parse order = [] then Prim (Fin 0)
               else Prim (Math_round (js_mul
                      (fst (fold (\<lambda>startCenter. \<lambda>(minCost, bestRoute).
                                    let r = findOptimalRoute DISTANCES_2 startCenter
                                              (centersNeeded_of parse order)
                                    in if js_lt (cost r) minCost then (cost r, route r)
                                       else (minCost, bestRoute))
                                 centers (PosInf, None)))
                      (Fin 13))))"
proof (cases "hit testCases_2 (JSON_stringify num_text (filterOrder parse order))")
  case (Some x)
  then show ?thesis
    using first_lookup[OF assms Some]
    by (simp add: calculateMinDeliveryCost_2_def Object_keys_def)
next
  case n1: None
  show ?thesis
  proof (cases "hit testCases_2
      (JSON_stringify num_text (Object_entries (sortedOrder_of (filterOrder parse order))))")
    case (Some x)
    then show ?thesis
      using second_lookup[OF assms Some] n1
      by (simp add: calculateMinDeliveryCost_2_def Object_keys_def)
  next
    case None
    then show ?thesis
      using n1
      by (simp add: calculateMinDeliveryCost_2_def Object_keys_def orderProducts_def
          centersNeeded_of_def split_beta Let_def split: option.splits)
  qed
qed

section \<open>The second entry point: hard-coded orders, quantities, the scaled minimum\<close>

lemma quote_free_sample: "quote_free sample_text"
  by (simp add: quote_free_def sample_text_def)

lemma productBasedCases_testCases: "productBasedCases = testCases"
  by (simp add: productBasedCases_def testCases_def)

lemma hardcoded_answer_2:
  assumes q: "quote_free num_text"
    and ks: "sorted_list_of_set (valid_keys parse order) = ks"
    and h: "(ks, v) \<in> set hardcoded"
  shows "calculateMinDeliveryCost_2 parse num_text order = Prim v"
proof -
  note ex = sorted_keys_exact[OF ks hardcoded_keys(3)[OF h]]
  have "ks \<noteq> []" using h by (auto simp: hardcoded_def)
  then have f: "filterOrder parse order \<noteq> []"
    unfolding filterOrder_Nil_iff ex(1) by simp
  show ?thesis
    unfolding calculateMinDeliveryCost_2_steps[OF q] ex(2)
    using f hardcoded_keys(4)[OF h] by simp
qed

text \<open>The four hard-coded orders get the same answers from the second entry point, given
  that numbers print without a double quote.\<close>

lemma second_entry_hardcoded:
  assumes "quote_free num_text"
  shows "(sorted_list_of_set (valid_keys parse order) = [''A'', ''B'', ''C'']
      \<longrightarrow> calculateMinDeliveryCost_2 parse num_text order = Prim (Fin 78)) \<and>
   (sorted_list_of_set (valid_keys parse order) = [''A'', ''B'', ''C'', ''D'']
      \<longrightarrow> calculateMinDeliveryCost_2 parse num_text order = Prim (Fin 168)) \<and>
   (sorted_list_of_set (valid_keys parse order) = [''A'', ''G'', ''H'', ''I'']
      \<longrightarrow> calculateMinDeliveryCost_2 parse num_text order = Prim (Fin 86)) \<and>
   (sorted_list_of_set (valid_keys parse order) = [''A'', ''B'', ''C'', ''G'', ''H'', ''I'']
      \<longrightarrow> calculateMinDeliveryCost_2 parse num_text order = Prim (Fin 118))"
  by (intro conjI impI; rule hardcoded_answer_2[OF assms]) (simp_all add: hardcoded_def)

lemma fst_fold_best:
  "fst (fold (\<lambda>s. \<lambda>(minCost, bestRoute).
               let r = f s in if js_lt (cost r) minCost then (cost r, route r)
                              else (minCost, bestRoute))
             ss (m, b)) =
   fold (\<lambda>s minCost. if js_lt (cost (f s)) minCost then cost (f s) else minCost) ss m"
  by (induction ss arbitrary: m b) (simp_all add: Let_def)

text \<open>In the second entry point too, the result depends on the valid keys only, although
  its first two lookups read the quantities.\<close>

lemma second_entry_valid_keys:
  assumes q: "quote_free num_text"
    and v: "valid_keys parse order1 = valid_keys parse order2"
  shows "calculateMinDeliveryCost_2 parse num_text order1 =
     calculateMinDeliveryCost_2 parse num_text order2"
proof -
  let ?c1 = "centersNeeded_of parse order1" and ?c2 = "centersNeeded_of parse order2"
  have f: "filterOrder parse order1 = [] \<longleftrightarrow> filterOrder parse order2 = []"
    unfolding filterOrder_Nil_iff v ..
  have n: "?c1 = [] \<longleftrightarrow> ?c2 = []"
    unfolding centersNeeded_of_Nil_iff v ..
  have p: "orderProducts parse order1 = orderProducts parse order2"
    unfolding orderProducts_eq v ..
  have s: "set ?c1 = set ?c2" unfolding set_centersNeeded_of v ..
  have d: "distinct ?c1" "distinct ?c2"
    by (simp_all add: centersNeeded_of_def distinct_findCentersNeeded)
  have ceq: "\<And>startCenter. startCenter \<in> set centers \<Longrightarrow>
      cost (findOptimalRoute DISTANCES_2 startCenter ?c1) =
      cost (findOptimalRoute DISTANCES_2 startCenter ?c2)"
    by (rule cost_findOptimalRoute_set[OF positive_DISTANCES_2 d s plain_stop_centers _
          centersNeeded_of_short]) (simp_all add: centersNeeded_of_plain)
  have m: "fold (\<lambda>s minCost.
          if js_lt (cost (findOptimalRoute DISTANCES_2 s ?c1)) minCost
          then cost (findOptimalRoute DISTANCES_2 s ?c1) else minCost) centers PosInf =
      fold (\<lambda>s minCost.
          if js_lt (cost (findOptimalRoute DISTANCES_2 s ?c2)) minCost
          then cost (findOptimalRoute DISTANCES_2 s ?c2) else minCost) centers PosInf"
    by (rule fold_cong) (simp_all add: ceq cong: if_cong)
  show ?thesis
    unfolding calculateMinDeliveryCost_2_steps[OF q] fst_fold_best p m using f n by simp
qed

lemma cost_findOptimalRoute_nonneg:
  assumes "positive_table D" and "plain_stop s"
  shows "cost (findOptimalRoute D s cs) \<noteq> NaN"
proof (cases "filter (\<lambda>center. center \<noteq> s) cs = []")
  case True
  have "\<forall>x\<in>set [s, L1]. plain_stop x" using assms(2) plain_stop_L1 by simp
  then have "calculateRouteCost D [s, L1] = pair_sum_cost D [s, L1]"
    by (rule plain_route_cost[OF assms(1)])
  then have "calculateRouteCost D [s, L1] \<noteq> NaN"
    using nonneg_pair_sum_cost[OF assms(1), of "[s, L1]"] nonneg_not_NaN by simp
  then show ?thesis using True by (simp add: findOptimalRoute_def)
next
  case False
  show ?thesis
    unfolding cost_findOptimalRoute_tried[OF False]
    using fold_keep_min_bounds[of PosInf D _ None] by (simp add: Let_def)
qed

lemma fold_best_Math_min:
  assumes "m \<noteq> NaN" and "\<forall>s\<in>set ss. g s \<noteq> NaN"
  shows "fold (\<lambda>s minCost. if js_lt (g s) minCost then g s else minCost) ss m =
     fold (\<lambda>s minCost. Math_min minCost (g s)) ss m"
  using assms
proof (induction ss arbitrary: m)
  case Nil
  then show ?case by simp
next
  case (Cons s ss)
  have e: "(if js_lt (g s) m then g s else m) = Math_min m (g s)"
    using Cons.prems by (simp add: Math_min_def)
  have "Math_min m (g s) \<noteq> NaN" using Cons.prems by (simp add: Math_min_def)
  then show ?case using Cons.IH[of "Math_min m (g s)"] Cons.prems e by simp
qed

text \<open>
  When no lookup finds the order, the second entry point returns the minimum over the
  start centers, times 13 and rounded.
\<close>

lemma calculateMinDeliveryCost_2_scaled_minimum:
  assumes q: "quote_free num_text"
    and ne: "centersNeeded_of parse order \<noteq> []"
    and miss: "orderProducts parse order \<notin> fst ` set testCases \<union> set Object_prototype"
  shows "\<exists>c. calculateMinDeliveryCost_2 parse num_text order
               = Prim (Math_round (js_mul c (Fin 13))) \<and>
     is_minimum c
       {cost (findOptimalRoute DISTANCES_2 s (centersNeeded_of parse order)) | s.
          s \<in> set centers}"
proof -
  let ?g = "\<lambda>s. cost (findOptimalRoute DISTANCES_2 s (centersNeeded_of parse order))"
  have nn: "\<forall>s\<in>set centers. ?g s \<noteq> NaN"
    using cost_findOptimalRoute_nonneg[OF positive_DISTANCES_2 plain_stop_centers] by blast
  have h: "hit productBasedCases (orderProducts parse order) = None"
    using testCases_miss[OF miss] by (simp add: hit_def productBasedCases_testCases)
  have r: "calculateMinDeliveryCost_2 parse num_text order =
      Prim (Math_round (js_mul (fold (\<lambda>s minCost. Math_min minCost (?g s)) centers PosInf)
                               (Fin 13)))"
    unfolding calculateMinDeliveryCost_2_steps[OF q] fst_fold_best h
    using ne centersNeeded_filterOrder[OF ne] fold_best_Math_min[of PosInf centers ?g] nn
    by simp
  have "is_minimum (fold (\<lambda>s minCost. Math_min minCost (?g s)) centers PosInf)
      (?g ` set centers)"
    by (rule fold_Math_min_minimum) (use nn in \<open>simp_all add: centers_def\<close>)
  moreover have "?g ` set centers = {?g s | s. s \<in> set centers}" by auto
  ultimately show ?thesis using r by auto
qed

text \<open>An order for products A and B: center C1 from start C1 costs 3 \<times> 3 = 9, and the
  second entry point returns 9 \<times> 13 = 117 where the first returns 39.\<close>

lemma second_entry_point_A_B:
  "calculateMinDeliveryCost_2 parse_decimal sample_text
     [(''A'', JNum (Fin 1)), (''B'', JNum (Fin 1))] = Prim (Fin 117)"
  by code_simp

end
